theory Spec2Isabelle
  imports Main "HOL-Library.Sublist" "HOL-Library.AList" "HOL-Library.Word"
begin

section \<open>JavaScript strings\<close>

text \<open>
  A JavaScript string is modelled as a \<^typ>\<open>string\<close>, one \<^typ>\<open>char\<close> per code unit
  (code units up to \<open>0xFF\<close>; every marker the program searches for is ASCII).
  The primitives below are the \<open>String.prototype\<close> methods the program calls.
\<close>

fun startsWith :: "string \<Rightarrow> string \<Rightarrow> bool" where
  "startsWith s [] = True"
| "startsWith [] (c # t) = False"
| "startsWith (a # s) (c # t) = (a = c \<and> startsWith s t)"

definition endsWith :: "string \<Rightarrow> string \<Rightarrow> bool" where
  "endsWith s t = startsWith (rev s) (rev t)"

fun includesStr :: "string \<Rightarrow> string \<Rightarrow> bool" where
  "includesStr [] t = startsWith [] t"
| "includesStr (a # s) t = (startsWith (a # s) t \<or> includesStr s t)"

text \<open>\<open>s.split(sep)[0]\<close> and \<open>s.split(sep).pop()\<close> for a one-character separator.\<close>

definition splitFirst :: "char \<Rightarrow> string \<Rightarrow> string" where
  "splitFirst sep s = takeWhile (\<lambda>c. c \<noteq> sep) s"

definition splitPop :: "char \<Rightarrow> string \<Rightarrow> string" where
  "splitPop sep s = rev (takeWhile (\<lambda>c. c \<noteq> sep) (rev s))"

text \<open>\<open>pattern.replace(/\.css$/, '')\<close>: drop one trailing \<open>.css\<close>.\<close>

definition stripCssExt :: "string \<Rightarrow> string" where
  "stripCssExt pattern =
     (if endsWith pattern ''.css'' then take (length pattern - 4) pattern else pattern)"

text \<open>\<open>urlPath.replace(/^\//, '')\<close>: drop one leading slash.\<close>

fun stripLeadingSlash :: "string \<Rightarrow> string" where
  "stripLeadingSlash [] = []"
| "stripLeadingSlash (c # s) = (if c = CHR ''/'' then s else c # s)"

text \<open>
  \<open>String.prototype.replace\<close> with a string pattern: the first occurrence of the
  pattern is replaced, and the replacement text is expanded by \<open>GetSubstitution\<close>
  (\<open>$$\<close>, \<open>$&\<close>, \<open>$`\<close>, \<open>$'\<close>; a string pattern has no captures, so any other
  \<open>$\<close> stays as it is).
\<close>

fun findFirst :: "string \<Rightarrow> string \<Rightarrow> (string \<times> string) option" where
  "findFirst pat [] = (if pat = [] then Some ([], []) else None)"
| "findFirst pat (c # s) =
     (if startsWith (c # s) pat then Some ([], drop (length pat) (c # s))
      else (case findFirst pat s of
              None \<Rightarrow> None
            | Some (pre, post) \<Rightarrow> Some (c # pre, post)))"

fun getSubstitution :: "string \<Rightarrow> string \<Rightarrow> string \<Rightarrow> string \<Rightarrow> string" where
  "getSubstitution m pre post [] = []"
| "getSubstitution m pre post [c] = [c]"
| "getSubstitution m pre post (c # d # r) =
     (if c = CHR ''$'' then
        (if d = CHR ''$'' then CHR ''$'' # getSubstitution m pre post r
         else if d = CHR ''&'' then m @ getSubstitution m pre post r
         else if d = CHR 0x60 then pre @ getSubstitution m pre post r
         else if d = CHR 0x27 then post @ getSubstitution m pre post r
         else c # getSubstitution m pre post (d # r))
      else c # getSubstitution m pre post (d # r))"

definition replace :: "string \<Rightarrow> string \<Rightarrow> string \<Rightarrow> string" where
  "replace s pat repl =
     (case findFirst pat s of
        None \<Rightarrow> s
      | Some (pre, post) \<Rightarrow> pre @ getSubstitution pat pre post repl @ post)"

section \<open>File system and path resolution\<close>

text \<open>
  The part of the file system the program looks at: a path is absent, a regular file with
  its text, or something that exists and cannot be read as a file (a directory).
  \<open>existsSync\<close> never raises; \<open>readFileSync\<close> raises unless the path is a regular file.
\<close>

type_synonym path = string

datatype node = File string | Directory

type_synonym fs = "path \<Rightarrow> node option"

datatype error = ENOENT | EISDIR | ERR_HTTP_HEADERS_SENT | TypeError | RangeError | GlobError

definition existsSync :: "fs \<Rightarrow> path \<Rightarrow> bool" where
  "existsSync fs p = (fs p \<noteq> None)"

definition readFileSync :: "fs \<Rightarrow> path \<Rightarrow> error + string" where
  "readFileSync fs p =
     (case fs p of
        None \<Rightarrow> Inl ENOENT
      | Some Directory \<Rightarrow> Inl EISDIR
      | Some (File text) \<Rightarrow> Inr text)"

text \<open>
  Node's \<open>path.resolve\<close> is library code; the model takes it as a parameter
  \<open>resolve :: path list \<Rightarrow> path\<close> (the argument list of the call).
\<close>

section \<open>The mapping table\<close>

text \<open>
  \<open>cssMappings\<close> is a JavaScript \<open>Map\<close>: it iterates in insertion order, and \<open>set\<close> on a
  key that is present replaces the value where the key stands.
\<close>

type_synonym store = "(string \<times> path) list"

definition mapHas :: "store \<Rightarrow> string \<Rightarrow> bool" where
  "mapHas m k = (map_of m k \<noteq> None)"

definition mapGet :: "store \<Rightarrow> string \<Rightarrow> path option" where
  "mapGet m k = map_of m k"

fun mapSet :: "store \<Rightarrow> string \<Rightarrow> path \<Rightarrow> store" where
  "mapSet [] k v = [(k, v)]"
| "mapSet ((k', v') # m) k v = (if k' = k then (k, v) # m else (k', v') # mapSet m k v)"

record options =
  cssMappings :: "(string \<times> string) list option"
  sourceFolder :: string
  baseDir :: string
  injectCSSReload :: bool

section \<open>buildCSSMapping\<close>

text \<open>
  The regular expression \<open>new RegExp(escape(sourceFolder) + '/([^/]+)/')\<close>: the leftmost
  place where the source folder, a slash, a non-empty run without a slash and another
  slash follow one another; the run is the folder name.
\<close>

definition folderAt :: "string \<Rightarrow> string \<Rightarrow> string option" where
  "folderAt src s =
     (if startsWith s (src @ ''/'') then
        (let rest = drop (length (src @ ''/'')) s;
             seg = takeWhile (\<lambda>c. c \<noteq> CHR ''/'') rest;
             tl = dropWhile (\<lambda>c. c \<noteq> CHR ''/'') rest
         in if seg \<noteq> [] \<and> tl \<noteq> [] then Some seg else None)
      else None)"

fun matchFolder :: "string \<Rightarrow> string \<Rightarrow> string option" where
  "matchFolder src [] = folderAt src []"
| "matchFolder src (c # s) =
     (case folderAt src (c # s) of
        Some folder \<Rightarrow> Some folder
      | None \<Rightarrow> matchFolder src s)"

definition patterns :: "string \<Rightarrow> string list" where
  "patterns folder =
     [''/assets/css/'' @ folder @ ''.css'',
      ''/assets/css/styles.'' @ folder @ ''.css'',
      ''/css/'' @ folder @ ''.css'',
      ''/styles/'' @ folder @ ''.css'',
      ''/dist/styles.'' @ folder @ ''.css'']"

definition addExplicit ::
  "(path list \<Rightarrow> path) \<Rightarrow> fs \<Rightarrow> options \<Rightarrow> store \<Rightarrow> string \<times> string \<Rightarrow> store" where
  "addExplicit resolve fs opts m entry =
     (case entry of (prodPath, localPath) \<Rightarrow>
        (let resolvedPath = resolve [baseDir opts, localPath]
         in if existsSync fs resolvedPath then mapSet m prodPath resolvedPath else m))"

definition addPattern :: "path \<Rightarrow> store \<Rightarrow> string \<Rightarrow> store" where
  "addPattern resolvedFile m pattern =
     (if \<not> mapHas m pattern then mapSet m pattern resolvedFile else m)"

definition addDetected ::
  "(path list \<Rightarrow> path) \<Rightarrow> options \<Rightarrow> store \<Rightarrow> string \<Rightarrow> store" where
  "addDetected resolve opts m file =
     (case matchFolder (sourceFolder opts) file of
        Some folder \<Rightarrow>
          (let resolvedFile = resolve [baseDir opts, file]
           in foldl (addPattern resolvedFile) m (patterns folder))
      | None \<Rightarrow> m)"

text \<open>
  The synchronous part of \<open>buildCSSMapping\<close>, after \<open>findCSSFiles\<close> has delivered the
  list \<open>cssFiles\<close>: \<open>clear()\<close>, the explicit mappings, then the detected files.
\<close>

definition populate ::
  "(path list \<Rightarrow> path) \<Rightarrow> fs \<Rightarrow> options \<Rightarrow> string list \<Rightarrow> store" where
  "populate resolve fs opts cssFiles =
     (let cleared = [];
          withExplicit =
            (case cssMappings opts of
               Some entries \<Rightarrow> foldl (addExplicit resolve fs opts) cleared entries
             | None \<Rightarrow> cleared)
      in foldl (addDetected resolve opts) withExplicit cssFiles)"

text \<open>The entries the first loop walks: none when \<open>options.cssMappings\<close> is falsy.\<close>

definition explicitEntries :: "options \<Rightarrow> (string \<times> string) list" where
  "explicitEntries opts = (case cssMappings opts of Some entries \<Rightarrow> entries | None \<Rightarrow> [])"

text \<open>
  \<open>buildCSSMapping\<close> awaits \<open>findCSSFiles\<close> first; \<open>glob\<close> is library code, so what it
  delivers (a rejection or the list of files, in discovery order) is an input. A rejection
  leaves the function before \<open>clear()\<close>.
\<close>

definition buildCSSMapping ::
  "(path list \<Rightarrow> path) \<Rightarrow> fs \<Rightarrow> options \<Rightarrow> error + string list \<Rightarrow> store \<Rightarrow> (error + unit) \<times> store" where
  "buildCSSMapping resolve fs opts found m =
     (case found of
        Inl e \<Rightarrow> (Inl e, m)
      | Inr cssFiles \<Rightarrow> (Inr (), populate resolve fs opts cssFiles))"

section \<open>The stylesheet middleware\<close>

text \<open>
  What the middleware does with a request: it sends a local file (the tier and the file
  are the ones its log line names), an exception leaves it, or it calls \<open>next()\<close>.
\<close>

datatype tier = Exact | Partial | Direct

datatype step = Sent tier path "(string \<times> string) list" string | Threw error | Next

definition cssHeaders :: "(string \<times> string) list" where
  "cssHeaders =
     [(''Content-Type'', ''text/css''),
      (''Cache-Control'', ''no-cache, no-store, must-revalidate''),
      (''Pragma'', ''no-cache''),
      (''Expires'', ''0'')]"

definition serveLocal :: "fs \<Rightarrow> tier \<Rightarrow> path \<Rightarrow> step" where
  "serveLocal fs t localPath =
     (case readFileSync fs localPath of
        Inl e \<Rightarrow> Threw e
      | Inr cssContent \<Rightarrow> Sent t localPath cssHeaders cssContent)"

definition exactMatch :: "fs \<Rightarrow> store \<Rightarrow> string \<Rightarrow> step option" where
  "exactMatch fs m urlPath =
     (if mapHas m urlPath then
        (case mapGet m urlPath of
           Some localPath \<Rightarrow>
             (if existsSync fs localPath then Some (serveLocal fs Exact localPath) else None)
         | None \<Rightarrow> None)
      else None)"

definition partialHit :: "string \<Rightarrow> string \<Rightarrow> bool" where
  "partialHit urlPath pattern =
     (let patternBase = stripCssExt pattern
      in includesStr urlPath patternBase \<or> endsWith urlPath (splitPop (CHR ''/'') pattern))"

fun partialMatches :: "fs \<Rightarrow> string \<Rightarrow> store \<Rightarrow> step option" where
  "partialMatches fs urlPath [] = None"
| "partialMatches fs urlPath ((pattern, localPath) # rest) =
     (if partialHit urlPath pattern then
        (if existsSync fs localPath then Some (serveLocal fs Partial localPath)
         else partialMatches fs urlPath rest)
      else partialMatches fs urlPath rest)"

definition directMatch :: "(path list \<Rightarrow> path) \<Rightarrow> fs \<Rightarrow> options \<Rightarrow> string \<Rightarrow> step" where
  "directMatch resolve fs opts urlPath =
     (let directPath = resolve [baseDir opts, sourceFolder opts, stripLeadingSlash urlPath]
      in if existsSync fs directPath \<and> endsWith directPath ''.css''
         then serveLocal fs Direct directPath
         else Next)"

definition cssMiddleware ::
  "(path list \<Rightarrow> path) \<Rightarrow> fs \<Rightarrow> options \<Rightarrow> store \<Rightarrow> string \<Rightarrow> step" where
  "cssMiddleware resolve fs opts m requestPath =
     (let urlPath = splitFirst (CHR ''?'') requestPath
      in if endsWith urlPath ''.css'' then
           (case exactMatch fs m urlPath of
              Some r \<Rightarrow> r
            | None \<Rightarrow>
                (case partialMatches fs urlPath m of
                   Some r \<Rightarrow> r
                 | None \<Rightarrow> directMatch resolve fs opts urlPath))
         else Next)"

section \<open>The middleware chain\<close>

text \<open>
  \<open>start()\<close> registers, in this order, the stylesheet middleware, the route
  \<open>app.get('/proxy-test')\<close>, the proxy middleware and the error handler. Whether
  Express's router gives a request to the route is library code: the parameter
  \<open>route\<close>. A request that no handler answers ends in Express's final handler.
\<close>

record request =
  reqMethod :: string
  reqPath :: string

datatype outcome =
  Local tier path "(string \<times> string) list" string
| StatusPayload
| Forwarded
| NotHandled
| InternalError error

definition proxyUse :: "request \<Rightarrow> outcome" where
  "proxyUse req =
     (if reqPath req = ''/proxy-test'' \<or> reqPath req = ''/favicon.ico''
         \<or> startsWith (reqPath req) ''/_next/''
      then NotHandled
      else Forwarded)"

definition dispatch ::
  "(string \<Rightarrow> request \<Rightarrow> bool) \<Rightarrow> (path list \<Rightarrow> path) \<Rightarrow> fs \<Rightarrow> options \<Rightarrow> store \<Rightarrow> request \<Rightarrow> outcome" where
  "dispatch route resolve fs opts m req =
     (case cssMiddleware resolve fs opts m (reqPath req) of
        Sent t localPath hs cssContent \<Rightarrow> Local t localPath hs cssContent
      | Threw e \<Rightarrow> InternalError e
      | Next \<Rightarrow> (if route ''/proxy-test'' req then StatusPayload else proxyUse req))"

section \<open>The watcher and the event loop\<close>

text \<open>
  JavaScript runs one callback at a time, each to its end. The callbacks that touch
  \<open>cssMappings\<close> are: a request passing through the middleware chain; the watcher's
  \<open>change\<close> handler, which calls \<open>buildCSSMapping\<close> and returns at its \<open>await\<close>; and
  the continuation of \<open>buildCSSMapping\<close> once \<open>findCSSFiles\<close> has settled, whose
  rejection the handler's \<open>catch\<close> logs. Each event carries the file system as it is
  when the callback runs.
\<close>

datatype event =
  Request fs request
| Change
| Settled fs "error + string list"

definition turn ::
  "(string \<Rightarrow> request \<Rightarrow> bool) \<Rightarrow> (path list \<Rightarrow> path) \<Rightarrow> options \<Rightarrow> store \<Rightarrow> event \<Rightarrow> store \<times> outcome option" where
  "turn route resolve opts m ev =
     (case ev of
        Request fs req \<Rightarrow> (m, Some (dispatch route resolve fs opts m req))
      | Change \<Rightarrow> (m, None)
      | Settled fs found \<Rightarrow> (snd (buildCSSMapping resolve fs opts found m), None))"

fun run ::
  "(string \<Rightarrow> request \<Rightarrow> bool) \<Rightarrow> (path list \<Rightarrow> path) \<Rightarrow> options \<Rightarrow> store \<Rightarrow> event list \<Rightarrow> store \<times> outcome list" where
  "run route resolve opts m [] = (m, [])"
| "run route resolve opts m (ev # evs) =
     (case turn route resolve opts m ev of
        (m', seen) \<Rightarrow>
          (case run route resolve opts m' evs of
             (m'', later) \<Rightarrow>
               (m'', (case seen of None \<Rightarrow> later | Some out \<Rightarrow> out # later))))"

section \<open>The HTML rewriter\<close>

definition cssReloadScript :: string where
  \<open>cssReloadScript =
     ''\<newline><script>'' @
     ''\<newline>(function() {'' @
     ''\<newline>  const cssFiles = document.querySelectorAll('link[rel="stylesheet"]');'' @
     ''\<newline>  let lastModified = {};'' @
     ''\<newline>  function checkCSS() {'' @
     ''\<newline>    cssFiles.forEach(link => {'' @
     ''\<newline>      const href = link.href.split('?')[0];'' @
     ''\<newline>      fetch(href + '?t=' + Date.now(), {cache: 'no-store'})'' @
     ''\<newline>        .then(r => r.text())'' @
     ''\<newline>        .then(css => {'' @
     ''\<newline>          const hash = btoa(css).substring(0, 10);'' @
     ''\<newline>          if (lastModified[href] && lastModified[href] !== hash) {'' @
     ''\<newline>            link.href = href + '?v=' + Date.now();'' @
     ''\<newline>            console.log('CSS updated:', href);'' @
     ''\<newline>          }'' @
     ''\<newline>          lastModified[href] = hash;'' @
     ''\<newline>        })'' @
     ''\<newline>        .catch(() => {});'' @
     ''\<newline>    });'' @
     ''\<newline>  }'' @
     ''\<newline>  setInterval(checkCSS, 2000);'' @
     ''\<newline>  checkCSS();'' @
     ''\<newline>})();'' @
     ''\<newline></script>''\<close>

text \<open>The \<open>if\<close>/\<open>else if\<close> that places the script.\<close>

definition injectScript :: "string \<Rightarrow> string" where
  "injectScript buffered =
     (if includesStr buffered ''</body>'' then
        replace buffered ''</body>'' (cssReloadScript @ ''</body>'')
      else if includesStr buffered ''</html>'' then
        replace buffered ''</html>'' (cssReloadScript @ ''</html>'')
      else buffered)"

text \<open>
  \<open>Buffer.from(s)\<close> is the UTF-8 encoding of the string, \<open>Buffer.byteLength(s)\<close> the
  number of bytes of that encoding.
\<close>

type_synonym buffer = "8 word list"

definition utf8 :: "char \<Rightarrow> buffer" where
  "utf8 c =
     (let n = (of_char c :: nat)
      in if n < 128 then [of_nat n] else [0xC0 + of_nat (n div 64), 0x80 + of_nat (n mod 64)])"

definition Buffer_from :: "string \<Rightarrow> buffer" where
  "Buffer_from s = concat (map utf8 s)"

definition Buffer_byteLength :: "string \<Rightarrow> nat" where
  "Buffer_byteLength s = sum_list (map (\<lambda>c. if (of_char c :: nat) < 128 then 1 else 2) s)"

text \<open>
  The response object as far as the rewriter uses it: the headers set so far (names in
  lower case, as Node keeps them), whether the header block has gone out and what it
  held, the body bytes on the wire, and whether the response has been ended.
  \<open>setHeader\<close> raises once the headers have been sent; \<open>write\<close> and \<open>end\<close> send them
  when they have not been.
\<close>

datatype hvalue = Str string | Num nat

record serverResponse =
  headersSent :: bool
  headerFields :: "(string \<times> hvalue) list"
  wireHead :: "(string \<times> hvalue) list option"
  wireBody :: buffer
  finished :: bool

definition toLower :: "char \<Rightarrow> char" where
  "toLower c =
     (case map_of (zip ''ABCDEFGHIJKLMNOPQRSTUVWXYZ'' ''abcdefghijklmnopqrstuvwxyz'') c of
        Some l \<Rightarrow> l
      | None \<Rightarrow> c)"

definition setHeader :: "serverResponse \<Rightarrow> string \<Rightarrow> hvalue \<Rightarrow> error + serverResponse" where
  "setHeader res name v =
     (if headersSent res then Inl ERR_HTTP_HEADERS_SENT
      else Inr (res\<lparr>headerFields := AList.update (map toLower name) v (headerFields res)\<rparr>))"

definition flushHead :: "serverResponse \<Rightarrow> serverResponse" where
  "flushHead res =
     (if headersSent res then res
      else res\<lparr>headersSent := True, wireHead := Some (headerFields res)\<rparr>)"

definition originalWrite :: "serverResponse \<Rightarrow> buffer \<Rightarrow> serverResponse" where
  "originalWrite res buf =
     (if finished res then res
      else (let res1 = flushHead res in res1\<lparr>wireBody := wireBody res1 @ buf\<rparr>))"

definition originalEnd :: "serverResponse \<Rightarrow> serverResponse" where
  "originalEnd res =
     (if finished res then res else (flushHead res)\<lparr>finished := True\<rparr>)"

text \<open>
  \<open>onProxyRes\<close> replaces \<open>res.write\<close> and \<open>res.end\<close> when the upstream content type
  contains \<open>text/html\<close> and \<open>injectCSSReload\<close> is not \<open>false\<close>. The closure variable
  \<open>body\<close> is passed along explicitly; a chunk is \<open>None\<close> when the argument is falsy and
  otherwise the text \<open>chunk.toString()\<close> gives.
\<close>

definition rewriterInstalled :: "options \<Rightarrow> string option \<Rightarrow> bool" where
  "rewriterInstalled opts contentTypeHeader =
     (let contentType = (case contentTypeHeader of Some s \<Rightarrow> s | None \<Rightarrow> [])
      in includesStr contentType ''text/html'' \<and> injectCSSReload opts)"

definition appendChunk :: "string \<Rightarrow> string option \<Rightarrow> string" where
  "appendChunk buffered chunk = (case chunk of None \<Rightarrow> buffered | Some s \<Rightarrow> buffered @ s)"

definition writeOverride :: "string \<Rightarrow> string option \<Rightarrow> string \<times> bool" where
  "writeOverride buffered chunk = (appendChunk buffered chunk, True)"

text \<open>
  The \<open>try\<close> block of the \<open>res.end\<close> override. It gives the exception that left it, if
  any, the value the variable \<open>body\<close> has at that moment, and the response. The
  statement \<open>delete proxyRes.headers['content-length']\<close> changes the upstream message
  only, whose headers were copied to the response before the body was piped.
\<close>

definition tryInject :: "serverResponse \<Rightarrow> string \<Rightarrow> error option \<times> string \<times> serverResponse" where
  "tryInject res buffered =
     (let injected = injectScript buffered
      in case setHeader res ''Content-Length'' (Num (Buffer_byteLength injected)) of
           Inl e \<Rightarrow> (Some e, injected, res)
         | Inr res1 \<Rightarrow>
             (let res2 = originalWrite res1 (Buffer_from injected);
                  res3 = originalEnd res2
              in (None, injected, res3)))"

text \<open>
  \<open>lib/css-proxy-server.js\<close>: the \<open>catch\<close> block starts with \<open>this.log(...)\<close>. The
  override is a \<open>function\<close> expression called as \<open>res.end(...)\<close>, so \<open>this\<close> is the
  response object, which has no \<open>log\<close>; the call raises a \<open>TypeError\<close> and the two
  statements after it do not run.
\<close>

definition endOverride ::
  "serverResponse \<Rightarrow> string \<Rightarrow> string option \<Rightarrow> error option \<times> serverResponse" where
  "endOverride res buffered chunk =
     (let buffered1 = appendChunk buffered chunk
      in case tryInject res buffered1 of
           (None, _, res') \<Rightarrow> (None, res')
         | (Some e, _, res') \<Rightarrow> (Some TypeError, res'))"

text \<open>
  \<open>proxy-server.js\<close>: the \<open>catch\<close> block logs with \<open>console.error\<close>, then writes
  \<open>Buffer.from(body)\<close> and ends the response.
\<close>

definition endOverrideLegacy ::
  "serverResponse \<Rightarrow> string \<Rightarrow> string option \<Rightarrow> error option \<times> serverResponse" where
  "endOverrideLegacy res buffered chunk =
     (let buffered1 = appendChunk buffered chunk
      in case tryInject res buffered1 of
           (None, _, res') \<Rightarrow> (None, res')
         | (Some e, bodyNow, res') \<Rightarrow>
             (None, originalEnd (originalWrite res' (Buffer_from bodyNow))))"

text \<open>
  A JavaScript string has a largest length (\<open>buffer.constants.MAX_STRING_LENGTH\<close>), and an
  operation whose result would be longer raises \<open>RangeError: Invalid string length\<close>.
  The functions below are the \<open>res.end\<close> override with that limit as the parameter
  \<open>maxLen\<close>: the concatenations \<open>body += chunk.toString()\<close> and
  \<open>cssReloadScript + '</body>'\<close> and the call of \<open>replace\<close> can raise. The append
  stands before the \<open>try\<close>, so its exception leaves the override; an exception of the
  other two is caught, and \<open>body\<close> still holds the buffered text, since the assignment
  has not taken place.
\<close>

definition concatBounded :: "nat \<Rightarrow> string \<Rightarrow> string \<Rightarrow> error + string" where
  "concatBounded maxLen s t = (if length (s @ t) \<le> maxLen then Inr (s @ t) else Inl RangeError)"

definition replaceBounded :: "nat \<Rightarrow> string \<Rightarrow> string \<Rightarrow> string \<Rightarrow> error + string" where
  "replaceBounded maxLen s pat repl =
     (if length (replace s pat repl) \<le> maxLen then Inr (replace s pat repl) else Inl RangeError)"

definition injectScriptBounded :: "nat \<Rightarrow> string \<Rightarrow> error + string" where
  "injectScriptBounded maxLen buffered =
     (if includesStr buffered ''</body>'' then
        (case concatBounded maxLen cssReloadScript ''</body>'' of
           Inl e \<Rightarrow> Inl e
         | Inr repl \<Rightarrow> replaceBounded maxLen buffered ''</body>'' repl)
      else if includesStr buffered ''</html>'' then
        (case concatBounded maxLen cssReloadScript ''</html>'' of
           Inl e \<Rightarrow> Inl e
         | Inr repl \<Rightarrow> replaceBounded maxLen buffered ''</html>'' repl)
      else Inr buffered)"

definition appendChunkBounded :: "nat \<Rightarrow> string \<Rightarrow> string option \<Rightarrow> error + string" where
  "appendChunkBounded maxLen buffered chunk =
     (case chunk of None \<Rightarrow> Inr buffered | Some s \<Rightarrow> concatBounded maxLen buffered s)"

definition tryInjectBounded ::
  "nat \<Rightarrow> serverResponse \<Rightarrow> string \<Rightarrow> error option \<times> string \<times> serverResponse" where
  "tryInjectBounded maxLen res buffered =
     (case injectScriptBounded maxLen buffered of
        Inl e \<Rightarrow> (Some e, buffered, res)
      | Inr injected \<Rightarrow>
          (case setHeader res ''Content-Length'' (Num (Buffer_byteLength injected)) of
             Inl e \<Rightarrow> (Some e, injected, res)
           | Inr res1 \<Rightarrow>
               (let res2 = originalWrite res1 (Buffer_from injected);
                    res3 = originalEnd res2
                in (None, injected, res3))))"

definition endOverrideBounded ::
  "nat \<Rightarrow> serverResponse \<Rightarrow> string \<Rightarrow> string option \<Rightarrow> error option \<times> serverResponse" where
  "endOverrideBounded maxLen res buffered chunk =
     (case appendChunkBounded maxLen buffered chunk of
        Inl e \<Rightarrow> (Some e, res)
      | Inr buffered1 \<Rightarrow>
          (case tryInjectBounded maxLen res buffered1 of
             (None, _, res') \<Rightarrow> (None, res')
           | (Some e, _, res') \<Rightarrow> (Some TypeError, res')))"

definition endOverrideLegacyBounded ::
  "nat \<Rightarrow> serverResponse \<Rightarrow> string \<Rightarrow> string option \<Rightarrow> error option \<times> serverResponse" where
  "endOverrideLegacyBounded maxLen res buffered chunk =
     (case appendChunkBounded maxLen buffered chunk of
        Inl e \<Rightarrow> (Some e, res)
      | Inr buffered1 \<Rightarrow>
          (case tryInjectBounded maxLen res buffered1 of
             (None, _, res') \<Rightarrow> (None, res')
           | (Some e, bodyNow, res') \<Rightarrow>
               (None, originalEnd (originalWrite res' (Buffer_from bodyNow)))))"

section \<open>Concrete inputs\<close>

text \<open>
  A project at \<open>/proj\<close> with two stylesheets under \<open>src\<close>, a \<open>path.resolve\<close> that
  joins its arguments with slashes (what Node gives for an absolute first argument and
  relative ones without dots), and a router that accepts \<open>GET\<close> on the exact path.
\<close>

fun joinPath :: "path list \<Rightarrow> path" where
  "joinPath [] = []"
| "joinPath [p] = p"
| "joinPath (p # q # r) = p @ ''/'' @ joinPath (q # r)"

definition projFs :: fs where
  "projFs p =
     (if p = ''/proj/src/header/style.css'' then Some (File ''h1{}'')
      else if p = ''/proj/src/footer/style.css'' then Some (File ''p{}'')
      else if p = ''/proj/src'' then Some Directory
      else None)"

definition projOpts :: options where
  "projOpts =
     \<lparr>cssMappings = Some [(''/assets/css/header.css'', ''src/header/style.css'')],
      sourceFolder = ''src'', baseDir = ''/proj'', injectCSSReload = True\<rparr>"

definition getRoute :: "string \<Rightarrow> request \<Rightarrow> bool" where
  "getRoute r req = (reqMethod req = ''GET'' \<and> reqPath req = r)"

definition freshResponse :: serverResponse where
  "freshResponse =
     \<lparr>headersSent = False, headerFields = [(''content-length'', Str ''13'')],
      wireHead = None, wireBody = [], finished = False\<rparr>"

text \<open>
  A page of exactly the largest string length of V8 (\<open>2^29 - 24\<close> code units) that ends
  with the closing body marker, and the response it is proxied into: the upstream
  headers have been copied, nothing has been written.
\<close>

definition v8MaxLength :: nat where
  "v8MaxLength = 536870888"

definition hugePage :: string where
  "hugePage = replicate 536870881 (CHR ''a'') @ ''</body>''"

definition pendingResponse :: serverResponse where
  "pendingResponse =
     \<lparr>headersSent = False,
      headerFields = [(''content-type'', Str ''text/html''), (''content-length'', Str ''536870888'')],
      wireHead = None, wireBody = [], finished = False\<rparr>"

text \<open>
  A file system in which nothing under the project can be read, and a configuration whose
  explicit mapping points at the source folder itself, a directory.
\<close>

definition lostFs :: fs where
  "lostFs p = None"


definition cssHeaderRequest :: request where
  "cssHeaderRequest = \<lparr>reqMethod = ''GET'', reqPath = ''/css/header.css''\<rparr>"

definition twoHeaders :: store where
  "twoHeaders =
     [(''/x/header.css'', ''/proj/src/footer/style.css''),
      (''/css/header.css'', ''/proj/src/header/style.css'')]"

text \<open>
  The partial tier's test as the specification words it: the final path segments are
  equal. It is compared with \<open>partialHit\<close>, the test the middleware makes.
\<close>

definition claimedPartialHit :: "string \<Rightarrow> string \<Rightarrow> bool" where
  "claimedPartialHit urlPath pattern =
     (includesStr urlPath (stripCssExt pattern)
      \<or> splitPop (CHR ''/'') urlPath = splitPop (CHR ''/'') pattern)"

definition staleFirst :: store where
  "staleFirst =
     [(''/css/header.css'', ''/proj/gone.css''),
      (''/x/header.css'', ''/proj/src/footer/style.css'')]"

definition staleExplicit :: options where
  "staleExplicit =
     \<lparr>cssMappings = Some [(''/css/header.css'', ''gone.css'')],
      sourceFolder = ''src'', baseDir = ''/proj'', injectCSSReload = True\<rparr>"

definition headerTable :: store where
  "headerTable =
     [(''/assets/css/header.css'', ''/proj/src/header/style.css''),
      (''/assets/css/styles.header.css'', ''/proj/src/header/style.css''),
      (''/css/header.css'', ''/proj/src/header/style.css''),
      (''/styles/header.css'', ''/proj/src/header/style.css''),
      (''/dist/styles.header.css'', ''/proj/src/header/style.css'')]"

definition xHeaderRequest :: request where
  "xHeaderRequest = \<lparr>reqMethod = ''GET'', reqPath = ''/x/header.css''\<rparr>"

section \<open>Properties of the primitives\<close>

lemma startsWith_prefix: "startsWith s t \<longleftrightarrow> prefix t s"
  by (induction s t rule: startsWith.induct) auto

lemma endsWith_suffix: "endsWith s t \<longleftrightarrow> suffix t s"
  by (simp add: endsWith_def startsWith_prefix suffix_to_prefix)

lemma includesStr_sublist: "includesStr s t \<longleftrightarrow> sublist t s"
  by (induction s) (auto simp: startsWith_prefix sublist_Cons_right)

lemma findFirst_None: "findFirst pat s = None \<longleftrightarrow> \<not> sublist pat s"
  by (induction s) (auto simp: startsWith_prefix sublist_Cons_right split: option.splits)

lemma findFirst_Some:
  "findFirst pat s = Some (pre, post) \<Longrightarrow> s = pre @ pat @ post"
proof (induction s arbitrary: pre)
  case Nil
  then show ?case by (auto split: if_splits)
next
  case (Cons c s)
  show ?case
  proof (cases "startsWith (c # s) pat")
    case True
    with Cons.prems have pp: "pre = []" "post = drop (length pat) (c # s)"
      by simp_all
    from True have "c # s = pat @ drop (length pat) (c # s)"
      unfolding startsWith_prefix prefix_def by (metis append_eq_conv_conj)
    with pp show ?thesis by simp
  next
    case False
    with Cons.prems obtain pre0 where "findFirst pat s = Some (pre0, post)" "pre = c # pre0"
      by (auto split: option.splits)
    with Cons.IH show ?thesis by auto
  qed
qed

lemma findFirst_least:
  "findFirst pat s = Some (pre, post) \<Longrightarrow> s = pre' @ pat @ post' \<Longrightarrow> length pre \<le> length pre'"
proof (induction s arbitrary: pre pre')
  case Nil
  then show ?case by (auto split: if_splits)
next
  case (Cons c s)
  show ?case
  proof (cases "startsWith (c # s) pat")
    case True
    with Cons.prems(1) have "pre = []" by simp
    then show ?thesis by simp
  next
    case False
    with Cons.prems(1) obtain pre0 where f: "findFirst pat s = Some (pre0, post)" "pre = c # pre0"
      by (auto split: option.splits)
    from False Cons.prems(2) have "pre' \<noteq> []"
      by (auto simp: startsWith_prefix)
    with Cons.prems(2) obtain pre'' where p: "pre' = c # pre''" "s = pre'' @ pat @ post'"
      by (cases pre') auto
    from Cons.IH[OF f(1) p(2)] f(2) p(1) show ?thesis by simp
  qed
qed

lemma getSubstitution_plain:
  "CHR ''$'' \<notin> set repl \<Longrightarrow> getSubstitution m pre post repl = repl"
  by (induction m pre post repl rule: getSubstitution.induct) auto

lemma map_of_mapSet: "map_of (mapSet m k v) = (map_of m)(k \<mapsto> v)"
  by (induction m k v rule: mapSet.induct) auto

lemma mapSet_absent: "map_of m k = None \<Longrightarrow> mapSet m k v = m @ [(k, v)]"
  by (induction m k v rule: mapSet.induct) (auto split: if_splits)

section \<open>Properties of the middleware tiers\<close>

lemma stripCssExt_suffix:
  "suffix ''.css'' pattern \<Longrightarrow> stripCssExt pattern @ ''.css'' = pattern"
  "\<not> suffix ''.css'' pattern \<Longrightarrow> stripCssExt pattern = pattern"
  by (auto simp: stripCssExt_def endsWith_suffix suffix_def)

lemma splitPop_last_segment:
  "CHR ''/'' \<notin> set (splitPop (CHR ''/'') s)"
  "suffix (splitPop (CHR ''/'') s) s"
  "CHR ''/'' \<in> set s \<Longrightarrow> suffix (CHR ''/'' # splitPop (CHR ''/'') s) s"
proof -
  define d where "d = dropWhile (\<lambda>c. c \<noteq> CHR ''/'') (rev s)"
  show "CHR ''/'' \<notin> set (splitPop (CHR ''/'') s)"
    by (auto simp: splitPop_def dest: set_takeWhileD)
  have "rev (rev s) = rev (takeWhile (\<lambda>c. c \<noteq> CHR ''/'') (rev s) @ d)"
    unfolding d_def by (simp only: takeWhile_dropWhile_id)
  then have s: "s = rev d @ splitPop (CHR ''/'') s"
    by (simp add: splitPop_def)
  show "suffix (splitPop (CHR ''/'') s) s"
    by (rule suffixI[OF s])
  show "suffix (CHR ''/'' # splitPop (CHR ''/'') s) s" if "CHR ''/'' \<in> set s"
  proof -
    from that have ne: "d \<noteq> []"
      by (simp add: d_def dropWhile_eq_Nil_conv)
    with hd_dropWhile[of "\<lambda>c. c \<noteq> CHR ''/''" "rev s"] have "hd d = CHR ''/''"
      by (simp add: d_def)
    with ne obtain r where "d = CHR ''/'' # r"
      by (cases d) auto
    with s have "s = rev r @ CHR ''/'' # splitPop (CHR ''/'') s" by simp
    then show ?thesis by (rule suffixI)
  qed
qed

lemma partialHit_iff:
  "partialHit u pattern \<longleftrightarrow>
     sublist (stripCssExt pattern) u \<or> suffix (splitPop (CHR ''/'') pattern) u"
  by (simp add: partialHit_def includesStr_sublist endsWith_suffix)

lemma partialMatches_find:
  "partialMatches fs u m =
     (case find (\<lambda>(pattern, localPath). partialHit u pattern \<and> existsSync fs localPath) m of
        Some (pattern, localPath) \<Rightarrow> Some (serveLocal fs Partial localPath)
      | None \<Rightarrow> None)"
  by (induction fs u m rule: partialMatches.induct) auto








section \<open>Properties of the build\<close>

lemma addPattern_keeps:
  "map_of m k = Some v \<Longrightarrow> map_of (addPattern f m pattern) k = Some v"
  by (auto simp: addPattern_def mapHas_def map_of_mapSet)

lemma addPatterns_keep:
  "map_of m k = Some v \<Longrightarrow> map_of (foldl (addPattern f) m ps) k = Some v"
  by (induction ps arbitrary: m) (auto simp: addPattern_keeps)

lemma addDetected_keeps:
  "map_of m k = Some v \<Longrightarrow> map_of (addDetected resolve opts m file) k = Some v"
  by (auto simp: addDetected_def Let_def addPatterns_keep split: option.splits)

lemma detected_keep:
  "map_of m k = Some v \<Longrightarrow> map_of (foldl (addDetected resolve opts) m files) k = Some v"
  by (induction files arbitrary: m) (auto simp: addDetected_keeps)

lemma addExplicit_other:
  "fst entry \<noteq> k \<Longrightarrow> map_of (addExplicit resolve fs opts m entry) k = map_of m k"
  by (cases entry) (auto simp: addExplicit_def Let_def map_of_mapSet)

lemma explicit_others:
  "k \<notin> fst ` set entries \<Longrightarrow>
   map_of (foldl (addExplicit resolve fs opts) m entries) k = map_of m k"
  by (induction entries arbitrary: m) (auto simp: addExplicit_other)

lemma explicit_sets:
  assumes "distinct (map fst entries)" and "(k, localPath) \<in> set entries"
    and "existsSync fs (resolve [baseDir opts, localPath])"
  shows "map_of (foldl (addExplicit resolve fs opts) m entries) k
         = Some (resolve [baseDir opts, localPath])"
  using assms
proof (induction entries arbitrary: m)
  case Nil
  then show ?case by simp
next
  case (Cons e es)
  show ?case
  proof (cases "e = (k, localPath)")
    case True
    with Cons.prems have "k \<notin> fst ` set es" by auto
    then have "map_of (foldl (addExplicit resolve fs opts) (addExplicit resolve fs opts m e) es) k
               = map_of (addExplicit resolve fs opts m e) k"
      by (rule explicit_others)
    also from True Cons.prems(3) have "\<dots> = Some (resolve [baseDir opts, localPath])"
      by (simp add: addExplicit_def map_of_mapSet)
    finally show ?thesis by simp
  next
    case False
    with Cons.prems have "(k, localPath) \<in> set es" "distinct (map fst es)" by auto
    with Cons.IH Cons.prems(3) show ?thesis by simp
  qed
qed

lemma addPattern_appends: "\<exists>ext. addPattern f m pattern = m @ ext"
  by (auto simp: addPattern_def mapHas_def mapSet_absent)

lemma addPatterns_append: "\<exists>ext. foldl (addPattern f) m ps = m @ ext"
proof (induction ps arbitrary: m)
  case Nil
  then show ?case by simp
next
  case (Cons p ps)
  obtain e1 where e1: "addPattern f m p = m @ e1"
    using addPattern_appends by blast
  obtain e2 where "foldl (addPattern f) (addPattern f m p) ps = addPattern f m p @ e2"
    using Cons.IH by blast
  with e1 show ?case by simp
qed

lemma addDetected_appends: "\<exists>ext. addDetected resolve opts m file = m @ ext"
  by (auto simp: addDetected_def Let_def addPatterns_append split: option.splits)

lemma detected_append: "\<exists>ext. foldl (addDetected resolve opts) m files = m @ ext"
proof (induction files arbitrary: m)
  case Nil
  then show ?case by simp
next
  case (Cons x xs)
  obtain e1 where e1: "addDetected resolve opts m x = m @ e1"
    using addDetected_appends by blast
  obtain e2 where "foldl (addDetected resolve opts) (addDetected resolve opts m x) xs
                   = addDetected resolve opts m x @ e2"
    using Cons.IH by blast
  with e1 show ?case by simp
qed

lemma populate_explicit_first:
  "\<exists>detected. populate resolve fs opts cssFiles =
     (case cssMappings opts of
        Some entries \<Rightarrow> foldl (addExplicit resolve fs opts) [] entries
      | None \<Rightarrow> []) @ detected"
  by (simp add: populate_def detected_append)

lemma mapHas_keys: "mapHas m k \<longleftrightarrow> k \<in> fst ` set m"
  by (simp add: mapHas_def map_of_eq_None_iff)

lemma keys_mapSet: "fst ` set (mapSet m k v) = insert k (fst ` set m)"
  by (induction m k v rule: mapSet.induct) auto

lemma set_mapSet: "x \<in> set (mapSet m k v) \<Longrightarrow> x = (k, v) \<or> x \<in> set m"
  by (induction m k v rule: mapSet.induct) (auto split: if_splits)

lemma distinct_mapSet: "distinct (map fst m) \<Longrightarrow> distinct (map fst (mapSet m k v))"
proof (induction m k v rule: mapSet.induct)
  case (1 k v)
  then show ?case by simp
next
  case (2 k' v' m k v)
  then show ?case
    using keys_mapSet[of m k v] by (auto simp: image_iff)
qed

lemma keys_addExplicit:
  "fst ` set (addExplicit resolve fs opts m e) =
     fst ` set m \<union> (if existsSync fs (resolve [baseDir opts, snd e]) then {fst e} else {})"
  by (cases e) (simp add: addExplicit_def Let_def keys_mapSet)

lemma keys_explicit:
  "fst ` set (foldl (addExplicit resolve fs opts) m entries) =
     fst ` set m \<union> {k. \<exists>lp. (k, lp) \<in> set entries \<and> existsSync fs (resolve [baseDir opts, lp])}"
proof (induction entries arbitrary: m)
  case Nil
  then show ?case by simp
next
  case (Cons e es)
  show ?case
    unfolding foldl_Cons Cons.IH keys_addExplicit by (cases e) auto
qed

lemma set_addExplicit:
  "x \<in> set (addExplicit resolve fs opts m e) \<Longrightarrow>
   x \<in> set m \<or> (existsSync fs (resolve [baseDir opts, snd e]) \<and> x = (fst e, resolve [baseDir opts, snd e]))"
  by (cases e) (auto simp: addExplicit_def Let_def dest: set_mapSet split: if_splits)

lemma set_explicit:
  "x \<in> set (foldl (addExplicit resolve fs opts) m entries) \<Longrightarrow>
   x \<in> set m \<or> (\<exists>lp. (fst x, lp) \<in> set entries \<and> existsSync fs (resolve [baseDir opts, lp])
                    \<and> snd x = resolve [baseDir opts, lp])"
proof (induction entries arbitrary: m)
  case Nil
  then show ?case by simp
next
  case (Cons e es)
  from Cons.IH[of "addExplicit resolve fs opts m e"] Cons.prems
  consider "x \<in> set (addExplicit resolve fs opts m e)"
    | "\<exists>lp. (fst x, lp) \<in> set es \<and> existsSync fs (resolve [baseDir opts, lp])
                    \<and> snd x = resolve [baseDir opts, lp]"
    by auto
  then show ?case
  proof cases
    case 1
    from set_addExplicit[OF 1] show ?thesis
      by (cases e) auto
  next
    case 2
    then show ?thesis by auto
  qed
qed

lemma distinct_addExplicit:
  "distinct (map fst m) \<Longrightarrow> distinct (map fst (addExplicit resolve fs opts m e))"
  by (cases e) (simp add: addExplicit_def Let_def distinct_mapSet)

lemma distinct_explicit:
  "distinct (map fst m) \<Longrightarrow> distinct (map fst (foldl (addExplicit resolve fs opts) m entries))"
  by (induction entries arbitrary: m) (simp_all add: distinct_addExplicit)

lemma keys_addPattern: "fst ` set (addPattern f m p) = insert p (fst ` set m)"
  by (auto simp: addPattern_def keys_mapSet mapHas_keys)

lemma keys_addPatterns: "fst ` set (foldl (addPattern f) m ps) = fst ` set m \<union> set ps"
proof (induction ps arbitrary: m)
  case Nil
  then show ?case by simp
next
  case (Cons p ps)
  show ?case
    unfolding foldl_Cons Cons.IH keys_addPattern by auto
qed

lemma set_addPattern: "x \<in> set (addPattern f m p) \<Longrightarrow> x \<in> set m \<or> x = (p, f)"
  by (auto simp: addPattern_def dest: set_mapSet split: if_splits)

lemma set_addPatterns:
  "x \<in> set (foldl (addPattern f) m ps) \<Longrightarrow> x \<in> set m \<or> (fst x \<in> set ps \<and> snd x = f)"
proof (induction ps arbitrary: m)
  case Nil
  then show ?case by simp
next
  case (Cons p ps)
  from Cons.IH[of "addPattern f m p"] Cons.prems
  have "x \<in> set (addPattern f m p) \<or> (fst x \<in> set ps \<and> snd x = f)"
    by simp
  then show ?case
    using set_addPattern[of x f m p] by auto
qed

lemma distinct_addPattern: "distinct (map fst m) \<Longrightarrow> distinct (map fst (addPattern f m p))"
  by (simp add: addPattern_def distinct_mapSet)

lemma distinct_addPatterns:
  "distinct (map fst m) \<Longrightarrow> distinct (map fst (foldl (addPattern f) m ps))"
  by (induction ps arbitrary: m) (simp_all add: distinct_addPattern)

lemma keys_addDetected:
  "fst ` set (addDetected resolve opts m x) =
     fst ` set m \<union> (case matchFolder (sourceFolder opts) x of
                       Some folder \<Rightarrow> set (patterns folder)
                     | None \<Rightarrow> {})"
  by (simp add: addDetected_def Let_def keys_addPatterns split: option.splits)

lemma keys_detected:
  "fst ` set (foldl (addDetected resolve opts) m xs) =
     fst ` set m \<union> {p. \<exists>x folder. x \<in> set xs
                          \<and> matchFolder (sourceFolder opts) x = Some folder
                          \<and> p \<in> set (patterns folder)}"
proof (induction xs arbitrary: m)
  case Nil
  then show ?case by simp
next
  case (Cons x xs)
  show ?case
    unfolding foldl_Cons Cons.IH keys_addDetected by (auto split: option.splits)
qed

lemma set_addDetected:
  "y \<in> set (addDetected resolve opts m x) \<Longrightarrow>
   y \<in> set m \<or> (\<exists>folder. matchFolder (sourceFolder opts) x = Some folder
                   \<and> fst y \<in> set (patterns folder) \<and> snd y = resolve [baseDir opts, x])"
  by (auto simp: addDetected_def Let_def dest: set_addPatterns split: option.splits)

lemma set_detected:
  "y \<in> set (foldl (addDetected resolve opts) m xs) \<Longrightarrow>
   y \<in> set m \<or> (\<exists>x folder. x \<in> set xs \<and> matchFolder (sourceFolder opts) x = Some folder
                   \<and> fst y \<in> set (patterns folder) \<and> snd y = resolve [baseDir opts, x])"
proof (induction xs arbitrary: m)
  case Nil
  then show ?case by simp
next
  case (Cons x xs)
  from Cons.IH[of "addDetected resolve opts m x"] Cons.prems
  consider "y \<in> set (addDetected resolve opts m x)"
    | "\<exists>x' folder. x' \<in> set xs \<and> matchFolder (sourceFolder opts) x' = Some folder
                   \<and> fst y \<in> set (patterns folder) \<and> snd y = resolve [baseDir opts, x']"
    by auto
  then show ?case
  proof cases
    case 1
    from set_addDetected[OF 1] show ?thesis by auto
  next
    case 2
    then show ?thesis by auto
  qed
qed

lemma distinct_addDetected:
  "distinct (map fst m) \<Longrightarrow> distinct (map fst (addDetected resolve opts m x))"
  by (simp add: addDetected_def Let_def distinct_addPatterns split: option.splits)

lemma distinct_detected:
  "distinct (map fst m) \<Longrightarrow> distinct (map fst (foldl (addDetected resolve opts) m xs))"
  by (induction xs arbitrary: m) (simp_all add: distinct_addDetected)

lemma populate_explicitEntries:
  "populate resolve fs opts cssFiles =
     foldl (addDetected resolve opts)
       (foldl (addExplicit resolve fs opts) [] (explicitEntries opts)) cssFiles"
  by (simp add: populate_def explicitEntries_def split: option.splits)

lemma populate_keys:
  "mapHas (populate resolve fs opts cssFiles) k \<longleftrightarrow>
     (\<exists>lp. (k, lp) \<in> set (explicitEntries opts) \<and> existsSync fs (resolve [baseDir opts, lp]))
     \<or> (\<exists>x folder. x \<in> set cssFiles \<and> matchFolder (sourceFolder opts) x = Some folder
                     \<and> k \<in> set (patterns folder))"
  unfolding mapHas_keys populate_explicitEntries keys_detected keys_explicit by auto

lemma populate_values:
  assumes "mapGet (populate resolve fs opts cssFiles) k = Some v"
  shows "(\<exists>lp. (k, lp) \<in> set (explicitEntries opts) \<and> existsSync fs (resolve [baseDir opts, lp])
               \<and> v = resolve [baseDir opts, lp])
         \<or> (\<exists>x folder. x \<in> set cssFiles \<and> matchFolder (sourceFolder opts) x = Some folder
                     \<and> k \<in> set (patterns folder) \<and> v = resolve [baseDir opts, x])"
proof -
  from assms have "(k, v) \<in> set (populate resolve fs opts cssFiles)"
    by (simp add: mapGet_def map_of_SomeD)
  from set_detected[OF this[unfolded populate_explicitEntries]]
  show ?thesis
    using set_explicit[of "(k, v)" resolve fs opts "[]" "explicitEntries opts"] by auto
qed

lemma populate_distinct: "distinct (map fst (populate resolve fs opts cssFiles))"
  unfolding populate_explicitEntries by (simp add: distinct_detected distinct_explicit)

section \<open>Properties of the rewriter\<close>

lemma script_no_dollar: "CHR ''$'' \<notin> set cssReloadScript"
  by (simp add: cssReloadScript_def)


lemma replace_first:
  assumes "sublist pat s" and "CHR ''$'' \<notin> set repl"
  shows "\<exists>pre post. s = pre @ pat @ post
           \<and> (\<forall>pre' post'. s = pre' @ pat @ post' \<longrightarrow> length pre \<le> length pre')
           \<and> replace s pat repl = pre @ repl @ post"
proof -
  from assms(1) obtain pre post where f: "findFirst pat s = Some (pre, post)"
    using findFirst_None[of pat s] by (cases "findFirst pat s") auto
  have "s = pre @ pat @ post"
    by (rule findFirst_Some[OF f])
  moreover have "\<forall>pre' post'. s = pre' @ pat @ post' \<longrightarrow> length pre \<le> length pre'"
    using findFirst_least[OF f] by blast
  moreover have "replace s pat repl = pre @ repl @ post"
    by (simp add: replace_def f getSubstitution_plain[OF assms(2)])
  ultimately show ?thesis by blast
qed

lemma replace_absent: "\<not> sublist pat s \<Longrightarrow> replace s pat repl = s"
  using findFirst_None[of pat s] by (simp add: replace_def)

lemma byteLength_length: "Buffer_byteLength s = length (Buffer_from s)"
  by (induction s) (simp_all add: Buffer_byteLength_def Buffer_from_def utf8_def Let_def)

lemma byteLength_append: "Buffer_byteLength (s @ t) = Buffer_byteLength s + Buffer_byteLength t"
  by (simp add: Buffer_byteLength_def)

lemma lower_content_length: "map toLower ''Content-Length'' = ''content-length''"
  by (simp add: toLower_def)

lemma tryInject_fresh:
  assumes "\<not> headersSent res" and "\<not> finished res"
  shows "tryInject res b =
           (None, injectScript b,
            res\<lparr>headerFields := AList.update ''content-length'' (Num (Buffer_byteLength (injectScript b))) (headerFields res),
                headersSent := True,
                wireHead := Some (AList.update ''content-length'' (Num (Buffer_byteLength (injectScript b))) (headerFields res)),
                wireBody := wireBody res @ Buffer_from (injectScript b),
                finished := True\<rparr>)"
  using assms
  by (simp add: tryInject_def setHeader_def toLower_def originalWrite_def
      originalEnd_def flushHead_def Let_def)

lemma injectScript_cases:
  "(sublist ''</body>'' b \<longrightarrow>
      (\<exists>pre post. b = pre @ ''</body>'' @ post
         \<and> (\<forall>pre' post'. b = pre' @ ''</body>'' @ post' \<longrightarrow> length pre \<le> length pre')
         \<and> injectScript b = pre @ cssReloadScript @ ''</body>'' @ post))
   \<and> (\<not> sublist ''</body>'' b \<and> sublist ''</html>'' b \<longrightarrow>
      (\<exists>pre post. b = pre @ ''</html>'' @ post
         \<and> (\<forall>pre' post'. b = pre' @ ''</html>'' @ post' \<longrightarrow> length pre \<le> length pre')
         \<and> injectScript b = pre @ cssReloadScript @ ''</html>'' @ post))
   \<and> (\<not> sublist ''</body>'' b \<and> \<not> sublist ''</html>'' b \<longrightarrow> injectScript b = b)"
proof -
  have nd: "CHR ''$'' \<notin> set (cssReloadScript @ m)" if "CHR ''$'' \<notin> set m" for m
    using that script_no_dollar by simp
  have 1: "\<exists>pre post. b = pre @ ''</body>'' @ post
         \<and> (\<forall>pre' post'. b = pre' @ ''</body>'' @ post' \<longrightarrow> length pre \<le> length pre')
         \<and> injectScript b = pre @ cssReloadScript @ ''</body>'' @ post"
    if "sublist ''</body>'' b"
    using replace_first[OF that nd[of "''</body>''"]] that
    by (simp add: injectScript_def includesStr_sublist)
  have 2: "\<exists>pre post. b = pre @ ''</html>'' @ post
         \<and> (\<forall>pre' post'. b = pre' @ ''</html>'' @ post' \<longrightarrow> length pre \<le> length pre')
         \<and> injectScript b = pre @ cssReloadScript @ ''</html>'' @ post"
    if "\<not> sublist ''</body>'' b" "sublist ''</html>'' b"
    using replace_first[OF that(2) nd[of "''</html>''"]] that
    by (simp add: injectScript_def includesStr_sublist)
  have 3: "injectScript b = b" if "\<not> sublist ''</body>'' b" "\<not> sublist ''</html>'' b"
    using that by (simp add: injectScript_def includesStr_sublist)
  from 1 2 3 show ?thesis by blast
qed

lemma script_bytes: "Buffer_byteLength cssReloadScript = 706"
  by (simp add: Buffer_byteLength_def cssReloadScript_def)

lemma injectScript_bytes:
  "sublist ''</body>'' b \<or> sublist ''</html>'' b \<Longrightarrow>
   Buffer_byteLength (injectScript b) = Buffer_byteLength b + 706"
proof -
  assume m: "sublist ''</body>'' b \<or> sublist ''</html>'' b"
  then consider (body) "sublist ''</body>'' b" | (html) "\<not> sublist ''</body>'' b" "sublist ''</html>'' b"
    by blast
  then obtain pre mk post where "b = pre @ mk @ post" "injectScript b = pre @ cssReloadScript @ mk @ post"
    using injectScript_cases[of b] by cases blast+
  then show ?thesis
    by (simp add: byteLength_append script_bytes)
qed

lemma script_length: "length cssReloadScript = 706"
  by (simp add: cssReloadScript_def)

lemma replace_length:
  assumes "sublist pat s" and "CHR ''$'' \<notin> set repl"
  shows "length (replace s pat repl) + length pat = length s + length repl"
proof -
  from replace_first[OF assms] obtain pre post where
    "s = pre @ pat @ post" "replace s pat repl = pre @ repl @ post"
    by blast
  then show ?thesis by simp
qed

lemma injectScriptBounded_within:
  assumes "713 \<le> maxLen" and "length (injectScript b) \<le> maxLen"
  shows "injectScriptBounded maxLen b = Inr (injectScript b)"
  using assms
  by (auto simp: injectScriptBounded_def injectScript_def concatBounded_def replaceBounded_def
      script_length split: if_splits)

lemma endOverrideBounded_within:
  assumes "713 \<le> maxLen"
    and "length (appendChunk buffered chunk) \<le> maxLen"
    and "length (injectScript (appendChunk buffered chunk)) \<le> maxLen"
  shows "endOverrideBounded maxLen res buffered chunk = endOverride res buffered chunk"
    and "endOverrideLegacyBounded maxLen res buffered chunk = endOverrideLegacy res buffered chunk"
proof -
  from assms(2) have a: "appendChunkBounded maxLen buffered chunk = Inr (appendChunk buffered chunk)"
    by (cases chunk) (simp_all add: appendChunkBounded_def appendChunk_def concatBounded_def)
  have t: "tryInjectBounded maxLen res (appendChunk buffered chunk)
           = tryInject res (appendChunk buffered chunk)"
    by (simp add: tryInjectBounded_def tryInject_def Let_def
        injectScriptBounded_within[OF assms(1,3)])
  show "endOverrideBounded maxLen res buffered chunk = endOverride res buffered chunk"
    by (simp add: endOverrideBounded_def endOverride_def a t Let_def)
  show "endOverrideLegacyBounded maxLen res buffered chunk = endOverrideLegacy res buffered chunk"
    by (simp add: endOverrideLegacyBounded_def endOverrideLegacy_def a t Let_def)
qed

lemma injectScriptBounded_overflow:
  assumes "sublist ''</body>'' b" and "713 \<le> maxLen" and "maxLen < length b + 706"
  shows "injectScriptBounded maxLen b = Inl RangeError"
proof -
  have nd: "CHR ''$'' \<notin> set (cssReloadScript @ ''</body>'')"
    using script_no_dollar by simp
  from replace_length[OF assms(1) nd]
  have "length (replace b ''</body>'' (cssReloadScript @ ''</body>'')) = length b + 706"
    by (simp add: script_length)
  with assms show ?thesis
    by (simp add: injectScriptBounded_def includesStr_sublist concatBounded_def
        replaceBounded_def script_length)
qed

lemma endOverride_overflow:
  assumes "sublist ''</body>'' b" and "713 \<le> maxLen" and "maxLen < length b + 706"
  shows "endOverrideBounded maxLen res b None = (Some TypeError, res)"
    and "endOverrideLegacyBounded maxLen res b None
         = (None, originalEnd (originalWrite res (Buffer_from b)))"
proof -
  have t: "tryInjectBounded maxLen res b = (Some RangeError, b, res)"
    by (simp add: tryInjectBounded_def injectScriptBounded_overflow[OF assms])
  show "endOverrideBounded maxLen res b None = (Some TypeError, res)"
    by (simp add: endOverrideBounded_def appendChunkBounded_def t)
  show "endOverrideLegacyBounded maxLen res b None
         = (None, originalEnd (originalWrite res (Buffer_from b)))"
    by (simp add: endOverrideLegacyBounded_def appendChunkBounded_def t)
qed

lemma hugePage_facts:
  "sublist ''</body>'' hugePage" "length hugePage = v8MaxLength"
proof -
  have "suffix ''</body>'' hugePage"
    unfolding hugePage_def by (rule suffixI) (rule refl)
  then show "sublist ''</body>'' hugePage"
    by (rule suffix_imp_sublist)
  show "length hugePage = v8MaxLength"
    unfolding hugePage_def v8MaxLength_def by (simp only: length_append length_replicate) simp
qed

section \<open>Properties of the event loop\<close>

lemma run_Cons_Request:
  "run route resolve opts m (Request fs req # evs) =
     (fst (run route resolve opts m evs),
      dispatch route resolve fs opts m req # snd (run route resolve opts m evs))"
  by (simp add: turn_def split: prod.splits)

lemma run_Cons_Change:
  "run route resolve opts m (Change # evs) = run route resolve opts m evs"
  by (simp add: turn_def split: prod.splits)

lemma run_Cons_Settled:
  "run route resolve opts m (Settled fs found # evs) =
     run route resolve opts (snd (buildCSSMapping resolve fs opts found m)) evs"
  by (simp add: turn_def split: prod.splits)

lemma run_observes_complete_tables:
  "out \<in> set (snd (run route resolve opts old evs)) \<Longrightarrow>
   \<exists>T fs req. Request fs req \<in> set evs
              \<and> (T = old \<or> (\<exists>fs' cssFiles. Settled fs' (Inr cssFiles) \<in> set evs
                              \<and> T = populate resolve fs' opts cssFiles))
              \<and> out = dispatch route resolve fs opts T req"
proof (induction evs arbitrary: old)
  case Nil
  then show ?case by simp
next
  case (Cons ev evs)
  have later: ?case
    if "out \<in> set (snd (run route resolve opts old evs))"
  proof -
    from Cons.IH[OF that] obtain T fs req where
      "Request fs req \<in> set evs"
      "T = old \<or> (\<exists>fs' cssFiles. Settled fs' (Inr cssFiles) \<in> set evs
                              \<and> T = populate resolve fs' opts cssFiles)"
      "out = dispatch route resolve fs opts T req"
      by blast
    then have "Request fs req \<in> set (ev # evs)"
      "T = old \<or> (\<exists>fs' cssFiles. Settled fs' (Inr cssFiles) \<in> set (ev # evs)
                              \<and> T = populate resolve fs' opts cssFiles)"
      by auto
    with \<open>out = dispatch route resolve fs opts T req\<close> show ?thesis by blast
  qed
  show ?case
  proof (cases ev)
    case (Request fs req)
    with Cons.prems have "out = dispatch route resolve fs opts old req
        \<or> out \<in> set (snd (run route resolve opts old evs))"
      by (simp add: run_Cons_Request del: run.simps(2))
    then show ?thesis
    proof
      assume "out = dispatch route resolve fs opts old req"
      moreover have "Request fs req \<in> set (ev # evs)"
        using Request by simp
      ultimately show ?thesis by blast
    next
      assume "out \<in> set (snd (run route resolve opts old evs))"
      then show ?thesis by (rule later)
    qed
  next
    case Change
    with Cons.prems have "out \<in> set (snd (run route resolve opts old evs))"
      by (simp add: run_Cons_Change del: run.simps(2))
    then show ?thesis by (rule later)
  next
    case (Settled fs found)
    show ?thesis
    proof (cases found)
      case (Inl e)
      with Settled Cons.prems have "out \<in> set (snd (run route resolve opts old evs))"
        by (simp add: run_Cons_Settled buildCSSMapping_def del: run.simps(2))
      then show ?thesis by (rule later)
    next
      case (Inr cssFiles)
      with Settled Cons.prems
      have "out \<in> set (snd (run route resolve opts (populate resolve fs opts cssFiles) evs))"
        by (simp add: run_Cons_Settled buildCSSMapping_def del: run.simps(2))
      from Cons.IH[OF this] obtain T fs1 req where
        r: "Request fs1 req \<in> set evs"
        and T: "T = populate resolve fs opts cssFiles
            \<or> (\<exists>fs' cssFiles'. Settled fs' (Inr cssFiles') \<in> set evs
                 \<and> T = populate resolve fs' opts cssFiles')"
        and o: "out = dispatch route resolve fs1 opts T req"
        by blast
      from T have "\<exists>fs' cssFiles'. Settled fs' (Inr cssFiles') \<in> set (ev # evs)
                 \<and> T = populate resolve fs' opts cssFiles'"
        using Settled Inr by auto
      moreover from r have "Request fs1 req \<in> set (ev # evs)" by simp
      ultimately show ?thesis using o by blast
    qed
  qed
qed

lemma run_requests:
  "run route resolve opts m (map (\<lambda>(fs, req). Request fs req) rs) =
     (m, map (\<lambda>(fs, req). dispatch route resolve fs opts m req) rs)"
  by (induction rs) (auto simp: run_Cons_Request simp del: run.simps(2))

lemma run_append:
  "run route resolve opts m (evs @ evs') =
     (fst (run route resolve opts (fst (run route resolve opts m evs)) evs'),
      snd (run route resolve opts m evs) @ snd (run route resolve opts (fst (run route resolve opts m evs)) evs'))"
proof (induction evs arbitrary: m)
  case Nil
  then show ?case by simp
next
  case (Cons ev evs)
  show ?case
    by (cases ev) (simp_all add: run_Cons_Request run_Cons_Change run_Cons_Settled Cons.IH del: run.simps(2))
qed

lemma populate_proj: "populate joinPath projFs projOpts [''src/header/style.css''] = headerTable"
proof -
  have a: "cssMappings projOpts = Some [(''/assets/css/header.css'', ''src/header/style.css'')]"
    and s: "sourceFolder projOpts = ''src''" and b: "baseDir projOpts = ''/proj''"
    by (simp_all add: projOpts_def)
  have e: "addExplicit joinPath projFs projOpts [] (''/assets/css/header.css'', ''src/header/style.css'')
           = [(''/assets/css/header.css'', ''/proj/src/header/style.css'')]"
    by (simp add: addExplicit_def b existsSync_def projFs_def)
  have f: "matchFolder ''src'' ''src/header/style.css'' = Some ''header''"
    by (simp add: folderAt_def)
  have d: "foldl (addPattern ''/proj/src/header/style.css'')
             [(''/assets/css/header.css'', ''/proj/src/header/style.css'')] (patterns ''header'')
           = headerTable"
    by (simp add: patterns_def addPattern_def mapHas_def headerTable_def)
  show ?thesis
    by (simp add: populate_def a e addDetected_def s f b d del: matchFolder.simps)
qed

lemma dispatch_old: "dispatch getRoute joinPath projFs projOpts twoHeaders xHeaderRequest
    = Local Exact ''/proj/src/footer/style.css'' cssHeaders ''p{}''"
  by (simp add: dispatch_def cssMiddleware_def xHeaderRequest_def splitFirst_def endsWith_def
      exactMatch_def mapHas_def mapGet_def twoHeaders_def existsSync_def projFs_def
      serveLocal_def readFileSync_def)

lemma dispatch_new: "dispatch getRoute joinPath projFs projOpts headerTable xHeaderRequest
    = Local Partial ''/proj/src/header/style.css'' cssHeaders ''h1{}''"
  by (simp add: dispatch_def cssMiddleware_def xHeaderRequest_def splitFirst_def endsWith_def
      exactMatch_def mapHas_def headerTable_def partialHit_def stripCssExt_def splitPop_def
      existsSync_def projFs_def serveLocal_def readFileSync_def)

lemma dispatch_headerTable:
  "dispatch getRoute joinPath projFs projOpts headerTable cssHeaderRequest
    = Local Exact ''/proj/src/header/style.css'' cssHeaders ''h1{}''"
  by (simp add: dispatch_def cssMiddleware_def cssHeaderRequest_def splitFirst_def endsWith_def
      exactMatch_def mapHas_def mapGet_def headerTable_def existsSync_def projFs_def
      serveLocal_def readFileSync_def)

lemma dispatch_emptyTable:
  "dispatch getRoute joinPath projFs projOpts [] cssHeaderRequest = Forwarded"
  by (simp add: dispatch_def cssMiddleware_def cssHeaderRequest_def splitFirst_def endsWith_def
      exactMatch_def mapHas_def directMatch_def projOpts_def existsSync_def projFs_def
      getRoute_def proxyUse_def)

lemma populate_lost: "populate joinPath lostFs projOpts [] = []"
  by (simp add: populate_def projOpts_def addExplicit_def existsSync_def lostFs_def)

section \<open>Claims about the stylesheet middleware\<close>

text \<open>
  C1. A request path (query part cut off) that ends in \<open>.css\<close>, is a key of the mapping
  table and whose mapped file exists at lookup time is answered from that file by the
  exact tier, whatever the partial and the direct tier would have found; when the file is
  a regular file its text is sent with the stylesheet headers.
\<close>

theorem C1_exact_tier_first:
  assumes "endsWith (splitFirst (CHR ''?'') p) ''.css''"
    and "mapGet m (splitFirst (CHR ''?'') p) = Some localPath"
    and "existsSync fs localPath"
  shows "cssMiddleware resolve fs opts m p = serveLocal fs Exact localPath
         \<and> (\<forall>text. fs localPath = Some (File text) \<longrightarrow>
                cssMiddleware resolve fs opts m p = Sent Exact localPath cssHeaders text)"
proof -
  from assms(2,3)
  have "exactMatch fs m (splitFirst (CHR ''?'') p) = Some (serveLocal fs Exact localPath)"
    by (simp add: exactMatch_def mapHas_def mapGet_def)
  with assms(1) have 1: "cssMiddleware resolve fs opts m p = serveLocal fs Exact localPath"
    by (simp add: cssMiddleware_def)
  then show ?thesis
    by (simp add: serveLocal_def readFileSync_def)
qed

theorem C1_witness:
  "endsWith (splitFirst (CHR ''?'') ''/css/header.css'') ''.css''
   \<and> mapGet twoHeaders (splitFirst (CHR ''?'') ''/css/header.css'')
       = Some ''/proj/src/header/style.css''
   \<and> existsSync projFs ''/proj/src/header/style.css''
   \<and> partialMatches projFs ''/css/header.css'' twoHeaders
       = Some (Sent Partial ''/proj/src/footer/style.css'' cssHeaders ''p{}'')
   \<and> cssMiddleware joinPath projFs projOpts twoHeaders ''/css/header.css''
       = Sent Exact ''/proj/src/header/style.css'' cssHeaders ''h1{}''"
proof -
  have a: "endsWith (splitFirst (CHR ''?'') ''/css/header.css'') ''.css''"
    by (simp add: endsWith_def splitFirst_def)
  have b: "mapGet twoHeaders (splitFirst (CHR ''?'') ''/css/header.css'')
           = Some ''/proj/src/header/style.css''"
    by (simp add: mapGet_def twoHeaders_def splitFirst_def)
  have c: "existsSync projFs ''/proj/src/header/style.css''"
    by (simp add: existsSync_def projFs_def)
  have d: "projFs ''/proj/src/header/style.css'' = Some (File ''h1{}'')"
    by (simp add: projFs_def)
  have e: "partialMatches projFs ''/css/header.css'' twoHeaders
           = Some (Sent Partial ''/proj/src/footer/style.css'' cssHeaders ''p{}'')"
    by (simp add: twoHeaders_def partialHit_def stripCssExt_def endsWith_def splitPop_def
        existsSync_def projFs_def serveLocal_def readFileSync_def)
  have f: "cssMiddleware joinPath projFs projOpts twoHeaders ''/css/header.css''
           = Sent Exact ''/proj/src/header/style.css'' cssHeaders ''h1{}''"
    using C1_exact_tier_first[OF a b c, of joinPath projOpts] d by blast
  from a b c e f show ?thesis
    by blast
qed

text \<open>
  C2, as stated, fails: the second test of the partial tier is \<open>endsWith\<close>, not equality
  of the final segments, so \<open>/x/myheader.css\<close> is answered from the entry
  \<open>/css/header.css\<close>; and an entry that matches while its file is gone does not win,
  the next matching entry does.
\<close>

theorem C2_counterexample:
  "partialHit ''/x/myheader.css'' ''/css/header.css''
   \<and> \<not> claimedPartialHit ''/x/myheader.css'' ''/css/header.css''
   \<and> cssMiddleware joinPath projFs projOpts [(''/css/header.css'', ''/proj/src/header/style.css'')]
         ''/x/myheader.css''
       = Sent Partial ''/proj/src/header/style.css'' cssHeaders ''h1{}''
   \<and> claimedPartialHit ''/v2/css/header.css'' ''/css/header.css''
   \<and> cssMiddleware joinPath projFs projOpts staleFirst ''/v2/css/header.css''
       = Sent Partial ''/proj/src/footer/style.css'' cssHeaders ''p{}''"
  by (simp add: partialHit_def claimedPartialHit_def stripCssExt_def endsWith_def splitPop_def
      cssMiddleware_def splitFirst_def exactMatch_def mapHas_def mapGet_def staleFirst_def
      existsSync_def projFs_def serveLocal_def readFileSync_def)

text \<open>
  C2, amended. For a request path ending in \<open>.css\<close> with no exact-tier hit, the
  middleware walks the table in insertion order and answers from the first entry that
  matches and whose file exists; an entry matches exactly when the request path contains
  the entry's key with a trailing \<open>.css\<close> removed, or ends with the text after the key's
  last slash. With no such entry the direct tier decides. The table holds the explicit
  mappings first and the detected ones after them.
\<close>

theorem C2_partial_tier:
  assumes "u = splitFirst (CHR ''?'') p"
    and "endsWith u ''.css''"
    and "exactMatch fs m u = None"
  shows "cssMiddleware resolve fs opts m p =
           (case find (\<lambda>(pattern, localPath). partialHit u pattern \<and> existsSync fs localPath) m of
              Some (pattern, localPath) \<Rightarrow> serveLocal fs Partial localPath
            | None \<Rightarrow> directMatch resolve fs opts u)
         \<and> (\<forall>pattern. partialHit u pattern \<longleftrightarrow>
               sublist (stripCssExt pattern) u \<or> suffix (splitPop (CHR ''/'') pattern) u)
         \<and> (\<exists>detected. populate resolve fs opts cssFiles =
               (case cssMappings opts of
                  Some entries \<Rightarrow> foldl (addExplicit resolve fs opts) [] entries
                | None \<Rightarrow> []) @ detected)"
proof -
  from assms(2,3) have "cssMiddleware resolve fs opts m p =
      (case partialMatches fs u m of Some r \<Rightarrow> r | None \<Rightarrow> directMatch resolve fs opts u)"
    unfolding assms(1) by (simp add: cssMiddleware_def Let_def)
  then have "cssMiddleware resolve fs opts m p =
           (case find (\<lambda>(pattern, localPath). partialHit u pattern \<and> existsSync fs localPath) m of
              Some (pattern, localPath) \<Rightarrow> serveLocal fs Partial localPath
            | None \<Rightarrow> directMatch resolve fs opts u)"
    by (simp add: partialMatches_find split: option.splits)
  with partialHit_iff populate_explicit_first show ?thesis
    by blast
qed

theorem C2_witness:
  "''/x/myheader.css'' = splitFirst (CHR ''?'') ''/x/myheader.css?v=3''
   \<and> endsWith ''/x/myheader.css'' ''.css''
   \<and> exactMatch projFs twoHeaders ''/x/myheader.css'' = None
   \<and> cssMiddleware joinPath projFs projOpts twoHeaders ''/x/myheader.css?v=3''
       = Sent Partial ''/proj/src/footer/style.css'' cssHeaders ''p{}''"
proof -
  have a: "''/x/myheader.css'' = splitFirst (CHR ''?'') ''/x/myheader.css?v=3''"
    by (simp add: splitFirst_def)
  have b: "endsWith ''/x/myheader.css'' ''.css''"
    by (simp add: endsWith_def)
  have c: "exactMatch projFs twoHeaders ''/x/myheader.css'' = None"
    by (simp add: exactMatch_def mapHas_def twoHeaders_def)
  have d: "find (\<lambda>(pattern, localPath). partialHit ''/x/myheader.css'' pattern \<and> existsSync projFs localPath) twoHeaders
           = Some (''/x/header.css'', ''/proj/src/footer/style.css'')"
    by (simp add: twoHeaders_def partialHit_def stripCssExt_def endsWith_def splitPop_def
        existsSync_def projFs_def)
  have e: "serveLocal projFs Partial ''/proj/src/footer/style.css''
           = Sent Partial ''/proj/src/footer/style.css'' cssHeaders ''p{}''"
    by (simp add: serveLocal_def readFileSync_def projFs_def)
  from C2_partial_tier[OF a b c, of joinPath projOpts] d e
  have "cssMiddleware joinPath projFs projOpts twoHeaders ''/x/myheader.css?v=3''
       = Sent Partial ''/proj/src/footer/style.css'' cssHeaders ''p{}''"
    by simp
  with a b c show ?thesis by blast
qed




section \<open>Claims about the middleware chain\<close>

text \<open>
  C4, as stated, fails: \<open>/favicon.ico\<close> does not end in \<open>.css\<close> and is not forwarded
  (the proxy middleware skips it), and \<open>/proxy-test\<close> is answered by the status route.
\<close>

theorem C4_counterexample:
  "\<not> endsWith (splitFirst (CHR ''?'') ''/favicon.ico'') ''.css''
   \<and> dispatch getRoute joinPath projFs projOpts twoHeaders
         \<lparr>reqMethod = ''GET'', reqPath = ''/favicon.ico''\<rparr> = NotHandled
   \<and> dispatch getRoute joinPath projFs projOpts twoHeaders
         \<lparr>reqMethod = ''GET'', reqPath = ''/proxy-test''\<rparr> = StatusPayload"
  by (simp add: endsWith_def splitFirst_def dispatch_def cssMiddleware_def getRoute_def proxyUse_def)

text \<open>
  C4, amended. For a request whose path (query part cut off) does not end in \<open>.css\<close>, the
  stylesheet middleware calls \<open>next()\<close> whatever the mapping table and the file system
  hold, and the request is forwarded upstream unless the router gives it to the status
  route or its path is \<open>/proxy-test\<close>, \<open>/favicon.ico\<close> or starts with \<open>/_next/\<close>.
\<close>

theorem C4_other_paths_bypass:
  assumes "\<not> endsWith (splitFirst (CHR ''?'') (reqPath req)) ''.css''"
  shows "cssMiddleware resolve fs opts m (reqPath req) = Next
         \<and> dispatch route resolve fs opts m req =
             (if route ''/proxy-test'' req then StatusPayload
              else if reqPath req = ''/proxy-test'' \<or> reqPath req = ''/favicon.ico''
                      \<or> startsWith (reqPath req) ''/_next/'' then NotHandled
              else Forwarded)"
  using assms by (simp add: cssMiddleware_def dispatch_def proxyUse_def)

theorem C4_witness:
  "\<not> endsWith (splitFirst (CHR ''?'') (reqPath \<lparr>reqMethod = ''GET'', reqPath = ''/index.html''\<rparr>)) ''.css''
   \<and> cssMiddleware joinPath projFs projOpts twoHeaders ''/index.html'' = Next
   \<and> dispatch getRoute joinPath projFs projOpts twoHeaders
        \<lparr>reqMethod = ''GET'', reqPath = ''/index.html''\<rparr> = Forwarded"
proof -
  have a: "\<not> endsWith (splitFirst (CHR ''?'') (reqPath \<lparr>reqMethod = ''GET'', reqPath = ''/index.html''\<rparr>)) ''.css''"
    by (simp add: endsWith_def splitFirst_def)
  from a C4_other_paths_bypass[OF a, of joinPath projFs projOpts twoHeaders getRoute]
  show ?thesis by (simp add: getRoute_def)
qed

section \<open>Claims about buildCSSMapping\<close>

text \<open>
  C3, as stated, fails: an explicit mapping whose file does not exist at build time is
  skipped, and a detected pattern with the same key then takes the key.
\<close>

theorem C3_counterexample:
  "cssMappings staleExplicit = Some [(''/css/header.css'', ''gone.css'')]
   \<and> matchFolder (sourceFolder staleExplicit) ''src/header/style.css'' = Some ''header''
   \<and> ''/css/header.css'' \<in> set (patterns ''header'')
   \<and> mapGet (populate joinPath projFs staleExplicit [''src/header/style.css'']) ''/css/header.css''
       = Some ''/proj/src/header/style.css''
   \<and> joinPath [baseDir staleExplicit, ''gone.css''] = ''/proj/gone.css''"
proof -
  have a: "cssMappings staleExplicit = Some [(''/css/header.css'', ''gone.css'')]"
    and s: "sourceFolder staleExplicit = ''src''" and b: "baseDir staleExplicit = ''/proj''"
    by (simp_all add: staleExplicit_def)
  have f: "matchFolder ''src'' ''src/header/style.css'' = Some ''header''"
    by (simp add: folderAt_def)
  have p: "''/css/header.css'' \<in> set (patterns ''header'')"
    by (simp add: patterns_def)
  have e: "addExplicit joinPath projFs staleExplicit [] (''/css/header.css'', ''gone.css'') = []"
    by (simp add: addExplicit_def b existsSync_def projFs_def)
  have d: "map_of (foldl (addPattern ''/proj/src/header/style.css'') [] (patterns ''header''))
             ''/css/header.css'' = Some ''/proj/src/header/style.css''"
    by (simp add: patterns_def addPattern_def mapHas_def)
  have "populate joinPath projFs staleExplicit [''src/header/style.css'']
        = foldl (addPattern ''/proj/src/header/style.css'') [] (patterns ''header'')"
    by (simp add: populate_def a e addDetected_def s f b del: matchFolder.simps)
  with d have "mapGet (populate joinPath projFs staleExplicit [''src/header/style.css''])
                ''/css/header.css'' = Some ''/proj/src/header/style.css''"
    by (simp add: mapGet_def)
  with a s b f p show ?thesis by simp
qed

text \<open>
  C3, amended. Whenever an explicit mapping whose resolved file exists at build time and
  a detected pattern give the same key, the built table maps the key to the explicit
  mapping's resolved file, for every list of discovered files in every order. (The keys
  of the configuration object are distinct.)
\<close>

theorem C3_explicit_wins:
  assumes "cssMappings opts = Some entries"
    and "distinct (map fst entries)"
    and "(k, localPath) \<in> set entries"
    and "existsSync fs (resolve [baseDir opts, localPath])"
  shows "mapGet (populate resolve fs opts cssFiles) k = Some (resolve [baseDir opts, localPath])
         \<and> snd (buildCSSMapping resolve fs opts (Inr cssFiles) m)
             = populate resolve fs opts cssFiles"
  using assms
  by (simp add: mapGet_def populate_def buildCSSMapping_def detected_keep explicit_sets)

theorem C3_witness:
  "cssMappings projOpts = Some [(''/assets/css/header.css'', ''src/header/style.css'')]
   \<and> distinct (map fst [(''/assets/css/header.css'', ''src/header/style.css'')])
   \<and> existsSync projFs (joinPath [baseDir projOpts, ''src/header/style.css''])
   \<and> matchFolder (sourceFolder projOpts) ''src/header/other.css'' = Some ''header''
   \<and> ''/assets/css/header.css'' \<in> set (patterns ''header'')
   \<and> mapGet (populate joinPath projFs projOpts [''src/header/other.css'']) ''/assets/css/header.css''
       = Some ''/proj/src/header/style.css''"
proof -
  have a: "cssMappings projOpts = Some [(''/assets/css/header.css'', ''src/header/style.css'')]"
    by (simp add: projOpts_def)
  have b: "distinct (map fst [(''/assets/css/header.css'', ''src/header/style.css'')])"
    by simp
  have c: "(''/assets/css/header.css'', ''src/header/style.css'')
           \<in> set [(''/assets/css/header.css'', ''src/header/style.css'')]"
    by simp
  have r: "joinPath [baseDir projOpts, ''src/header/style.css''] = ''/proj/src/header/style.css''"
    by (simp add: projOpts_def)
  have d: "existsSync projFs (joinPath [baseDir projOpts, ''src/header/style.css''])"
    unfolding r by (simp add: existsSync_def projFs_def)
  have f: "matchFolder (sourceFolder projOpts) ''src/header/other.css'' = Some ''header''"
    by (simp add: projOpts_def folderAt_def)
  have p: "''/assets/css/header.css'' \<in> set (patterns ''header'')"
    by (simp add: patterns_def)
  from C3_explicit_wins[where resolve = joinPath and fs = projFs and opts = projOpts
      and cssFiles = "[''src/header/other.css'']" and m = "[]", OF a b c d] r
  have "mapGet (populate joinPath projFs projOpts [''src/header/other.css'']) ''/assets/css/header.css''
       = Some ''/proj/src/header/style.css''"
    by simp
  with a b d f p show ?thesis by blast
qed

section \<open>Claims about the HTML rewriter\<close>




text \<open>
  C6. On the success path (the response has not been started, so \<open>setHeader\<close> does not
  raise) the \<open>Content-Length\<close> sent with the header block is the number of body bytes
  written, which are the bytes of the body after the injection; when a marker is
  present that is the length before the injection plus the 706 bytes of the script. Both
  files behave alike here.
\<close>

theorem C6_content_length_is_emitted_length:
  assumes "\<not> headersSent res" and "\<not> finished res" and "wireBody res = []"
    and "b = appendChunk buffered chunk"
  shows "\<exists>res' hs. endOverride res buffered chunk = (None, res')
           \<and> endOverrideLegacy res buffered chunk = (None, res')
           \<and> wireBody res' = Buffer_from (injectScript b)
           \<and> wireHead res' = Some hs
           \<and> map_of hs ''content-length'' = Some (Num (length (wireBody res')))
           \<and> (sublist ''</body>'' b \<or> sublist ''</html>'' b \<longrightarrow>
                length (wireBody res') = Buffer_byteLength b + 706)"
proof -
  let ?hs = "AList.update ''content-length'' (Num (Buffer_byteLength (injectScript b))) (headerFields res)"
  let ?res' = "res\<lparr>headerFields := ?hs, headersSent := True, wireHead := Some ?hs,
                wireBody := wireBody res @ Buffer_from (injectScript b), finished := True\<rparr>"
  from assms have 1: "endOverride res buffered chunk = (None, ?res')"
    "endOverrideLegacy res buffered chunk = (None, ?res')"
    by (simp_all add: endOverride_def endOverrideLegacy_def tryInject_fresh Let_def)
  from assms(3) have 2: "wireBody ?res' = Buffer_from (injectScript b)" by simp
  have 3: "wireHead ?res' = Some ?hs" by simp
  have 4: "map_of ?hs ''content-length'' = Some (Num (length (wireBody ?res')))"
    using 2 by (simp add: update_conv' byteLength_length)
  have 5: "length (wireBody ?res') = Buffer_byteLength b + 706"
    if "sublist ''</body>'' b \<or> sublist ''</html>'' b"
    using injectScript_bytes[OF that] 2 by (simp add: byteLength_length)
  from 1 2 3 4 5 show ?thesis by blast
qed

theorem C6_witness:
  "\<not> headersSent freshResponse \<and> \<not> finished freshResponse \<and> wireBody freshResponse = []
   \<and> map_of (headerFields freshResponse) ''content-length'' = Some (Str ''13'')
   \<and> (\<exists>res' hs. endOverride freshResponse ''<body>'' (Some ''</body>'') = (None, res')
         \<and> wireHead res' = Some hs
         \<and> map_of hs ''content-length'' = Some (Num (length (wireBody res')))
         \<and> length (wireBody res') = 719)"
proof -
  have f: "\<not> headersSent freshResponse" "\<not> finished freshResponse" "wireBody freshResponse = []"
    "map_of (headerFields freshResponse) ''content-length'' = Some (Str ''13'')"
    by (simp_all add: freshResponse_def)
  have c: "''<body></body>'' = appendChunk ''<body>'' (Some ''</body>'')"
    by (simp add: appendChunk_def)
  have m: "sublist ''</body>'' ''<body></body>''"
    unfolding includesStr_sublist[symmetric] by simp
  have n: "Buffer_byteLength ''<body></body>'' = 13"
    by (simp add: Buffer_byteLength_def)
  from C6_content_length_is_emitted_length[OF f(1,2,3) c] m n
  have "\<exists>res' hs. endOverride freshResponse ''<body>'' (Some ''</body>'') = (None, res')
         \<and> wireHead res' = Some hs
         \<and> map_of hs ''content-length'' = Some (Num (length (wireBody res')))
         \<and> length (wireBody res') = 719"
    by fastforce
  with f show ?thesis by blast
qed

text \<open>
  C7 at a page of the largest string length that ends with \<open></body>\<close>: the result of
  \<open>replace\<close> would be 706 code units too long, so the string manipulation raises inside
  the \<open>try\<close> block. In \<open>lib/css-proxy-server.js\<close> the \<open>catch\<close> block raises in turn
  (\<open>this.log\<close> on the response object) and the response is left as it was: nothing
  written, not ended. In \<open>proxy-server.js\<close> the \<open>catch\<close> block logs with
  \<open>console.error\<close> and the unmodified page goes out.
\<close>

theorem C7_fallback_after_failed_replace:
  "length hugePage = v8MaxLength
   \<and> \<not> headersSent pendingResponse \<and> wireBody pendingResponse = [] \<and> \<not> finished pendingResponse
   \<and> tryInjectBounded v8MaxLength pendingResponse hugePage
       = (Some RangeError, hugePage, pendingResponse)
   \<and> endOverrideBounded v8MaxLength pendingResponse hugePage None
       = (Some TypeError, pendingResponse)
   \<and> endOverrideLegacyBounded v8MaxLength pendingResponse hugePage None
       = (None, pendingResponse\<lparr>headersSent := True,
                                wireHead := Some (headerFields pendingResponse),
                                wireBody := Buffer_from hugePage,
                                finished := True\<rparr>)"
proof -
  have b: "713 \<le> v8MaxLength" "v8MaxLength < length hugePage + 706"
    by (simp_all add: hugePage_facts(2)) (simp add: v8MaxLength_def)
  have p: "\<not> headersSent pendingResponse" "wireBody pendingResponse = []" "\<not> finished pendingResponse"
    by (simp_all add: pendingResponse_def)
  have t: "tryInjectBounded v8MaxLength pendingResponse hugePage
       = (Some RangeError, hugePage, pendingResponse)"
    by (simp add: tryInjectBounded_def injectScriptBounded_overflow[OF hugePage_facts(1) b])
  have l: "originalEnd (originalWrite pendingResponse (Buffer_from hugePage))
       = pendingResponse\<lparr>headersSent := True,
                                wireHead := Some (headerFields pendingResponse),
                                wireBody := Buffer_from hugePage,
                                finished := True\<rparr>"
    using p by (simp add: originalWrite_def originalEnd_def flushHead_def)
  from hugePage_facts(2) p t endOverride_overflow[OF hugePage_facts(1) b, of pendingResponse] l
  show ?thesis by simp
qed

section \<open>Claims about rebuilds\<close>

text \<open>
  C8, as stated, fails: \<open>glob\<close> does not reject for a source folder it cannot read, it
  delivers no file. The build then clears the table and fills it from the explicit
  mappings alone (here none of their files can be read either), so the table published
  before is lost and a later request that it answered locally is forwarded.
\<close>

theorem C8_counterexample:
  "populate joinPath projFs projOpts [''src/header/style.css''] = headerTable
   \<and> headerTable \<noteq> []
   \<and> buildCSSMapping joinPath lostFs projOpts (Inr []) headerTable = (Inr (), [])
   \<and> run getRoute joinPath projOpts headerTable
        [Change, Settled lostFs (Inr []), Request projFs cssHeaderRequest] = ([], [Forwarded])
   \<and> dispatch getRoute joinPath projFs projOpts headerTable cssHeaderRequest
       = Local Exact ''/proj/src/header/style.css'' cssHeaders ''h1{}''"
proof -
  have b: "buildCSSMapping joinPath lostFs projOpts (Inr []) headerTable = (Inr (), [])"
    by (simp add: buildCSSMapping_def populate_lost)
  have r: "run getRoute joinPath projOpts headerTable
        [Change, Settled lostFs (Inr []), Request projFs cssHeaderRequest] = ([], [Forwarded])"
    by (simp add: run_Cons_Change run_Cons_Settled run_Cons_Request b dispatch_emptyTable
        del: run.simps(2))
  have n: "headerTable \<noteq> []"
    by (simp add: headerTable_def)
  from populate_proj n b r dispatch_headerTable show ?thesis by blast
qed

text \<open>
  C8, amended. When \<open>findCSSFiles\<close> rejects, \<open>buildCSSMapping\<close> leaves before
  \<open>clear()\<close>: the table is the one it was, the watcher's handler only logs, and the
  requests that follow are answered from it. When \<open>findCSSFiles\<close> delivers a list, the
  table is replaced, whatever it held, by the complete one: its keys are distinct and are
  exactly the explicit request paths whose file exists together with the patterns of the
  folders of the files found, and every value is the file its key comes from. For the
  empty list, which is what an unreadable source folder gives, that is the table of the
  explicit mappings alone.
\<close>

theorem C8_rebuild_keeps_or_replaces:
  "buildCSSMapping resolve fs opts (Inl e) m = (Inl e, m)
   \<and> run route resolve opts m (Change # Settled fs (Inl e) # evs) = run route resolve opts m evs
   \<and> buildCSSMapping resolve fs opts (Inr cssFiles) m = (Inr (), populate resolve fs opts cssFiles)
   \<and> run route resolve opts m (Change # Settled fs (Inr cssFiles) # evs)
       = run route resolve opts (populate resolve fs opts cssFiles) evs
   \<and> distinct (map fst (populate resolve fs opts cssFiles))
   \<and> (\<forall>k. mapHas (populate resolve fs opts cssFiles) k \<longleftrightarrow>
          (\<exists>lp. (k, lp) \<in> set (explicitEntries opts) \<and> existsSync fs (resolve [baseDir opts, lp]))
          \<or> (\<exists>x folder. x \<in> set cssFiles \<and> matchFolder (sourceFolder opts) x = Some folder
                 \<and> k \<in> set (patterns folder)))
   \<and> (\<forall>k v. mapGet (populate resolve fs opts cssFiles) k = Some v \<longrightarrow>
          (\<exists>lp. (k, lp) \<in> set (explicitEntries opts) \<and> existsSync fs (resolve [baseDir opts, lp])
                 \<and> v = resolve [baseDir opts, lp])
          \<or> (\<exists>x folder. x \<in> set cssFiles \<and> matchFolder (sourceFolder opts) x = Some folder
                 \<and> k \<in> set (patterns folder) \<and> v = resolve [baseDir opts, x]))
   \<and> populate resolve fs opts [] = foldl (addExplicit resolve fs opts) [] (explicitEntries opts)"
proof -
  have 1: "buildCSSMapping resolve fs opts (Inl e) m = (Inl e, m)"
    and 3: "buildCSSMapping resolve fs opts (Inr cssFiles) m
            = (Inr (), populate resolve fs opts cssFiles)"
    by (simp_all add: buildCSSMapping_def)
  have 2: "run route resolve opts m (Change # Settled fs (Inl e) # evs) = run route resolve opts m evs"
    and 4: "run route resolve opts m (Change # Settled fs (Inr cssFiles) # evs)
       = run route resolve opts (populate resolve fs opts cssFiles) evs"
    by (simp_all add: run_Cons_Change run_Cons_Settled 1 3 del: run.simps(2))
  have 8: "populate resolve fs opts [] = foldl (addExplicit resolve fs opts) [] (explicitEntries opts)"
    by (simp add: populate_explicitEntries)
  from 1 2 3 4 8 populate_distinct[of resolve fs opts cssFiles]
    populate_keys[of resolve fs opts cssFiles]
    populate_values[of resolve fs opts cssFiles]
  show ?thesis by blast
qed

theorem C8_witness:
  "run getRoute joinPath projOpts headerTable
     [Change, Settled projFs (Inl GlobError), Request projFs cssHeaderRequest]
   = (headerTable, [Local Exact ''/proj/src/header/style.css'' cssHeaders ''h1{}''])
   \<and> ''src/header/style.css'' \<in> set [''src/header/style.css'']
   \<and> matchFolder (sourceFolder projOpts) ''src/header/style.css'' = Some ''header''
   \<and> ''/styles/header.css'' \<in> set (patterns ''header'')
   \<and> mapHas (populate joinPath projFs projOpts [''src/header/style.css'']) ''/styles/header.css''
   \<and> mapGet headerTable ''/styles/header.css'' = Some ''/proj/src/header/style.css''"
proof -
  note T = C8_rebuild_keeps_or_replaces[where resolve = joinPath and fs = projFs
      and opts = projOpts and e = GlobError and m = headerTable and route = getRoute
      and evs = "[Request projFs cssHeaderRequest]" and cssFiles = "[''src/header/style.css'']"]
  from T have "run getRoute joinPath projOpts headerTable
          [Change, Settled projFs (Inl GlobError), Request projFs cssHeaderRequest]
        = run getRoute joinPath projOpts headerTable [Request projFs cssHeaderRequest]"
    by blast
  then have r: "run getRoute joinPath projOpts headerTable
     [Change, Settled projFs (Inl GlobError), Request projFs cssHeaderRequest]
   = (headerTable, [Local Exact ''/proj/src/header/style.css'' cssHeaders ''h1{}''])"
    by (simp add: run_Cons_Request dispatch_headerTable del: run.simps(2))
  have a: "''src/header/style.css'' \<in> set [''src/header/style.css'']"
    by simp
  have f: "matchFolder (sourceFolder projOpts) ''src/header/style.css'' = Some ''header''"
    by (simp add: projOpts_def folderAt_def)
  have p: "''/styles/header.css'' \<in> set (patterns ''header'')"
    by (simp add: patterns_def)
  from T a f p
  have h: "mapHas (populate joinPath projFs projOpts [''src/header/style.css'']) ''/styles/header.css''"
    by blast
  have g: "mapGet headerTable ''/styles/header.css'' = Some ''/proj/src/header/style.css''"
    by (simp add: mapGet_def headerTable_def)
  from r a f p h g show ?thesis by blast
qed

text \<open>
  C9. However requests, watcher events and settled scans interleave, every request is
  answered from a whole table: the table the server held at the start or the complete
  table of one of the rebuilds. In particular, with one rebuild in flight, the requests
  that run before its continuation are answered from the old table and those after it
  from the new one. (\<open>buildCSSMapping\<close> has its only \<open>await\<close> before \<open>clear()\<close>, and the
  middleware is synchronous, so no request runs between \<open>clear()\<close> and the last
  \<open>set\<close>.)
\<close>

theorem C9_lookups_see_whole_tables:
  "(\<forall>out \<in> set (snd (run route resolve opts old evs)).
      \<exists>T fs req. Request fs req \<in> set evs
                 \<and> (T = old \<or> (\<exists>fs' cssFiles. Settled fs' (Inr cssFiles) \<in> set evs
                                 \<and> T = populate resolve fs' opts cssFiles))
                 \<and> out = dispatch route resolve fs opts T req)
   \<and> run route resolve opts old
        (Change # map (\<lambda>(fs, req). Request fs req) during
           @ Settled fs' (Inr cssFiles) # map (\<lambda>(fs, req). Request fs req) after)
      = (populate resolve fs' opts cssFiles,
         map (\<lambda>(fs, req). dispatch route resolve fs opts old req) during
           @ map (\<lambda>(fs, req). dispatch route resolve fs opts (populate resolve fs' opts cssFiles) req) after)"
proof -
  have 1: "\<forall>out \<in> set (snd (run route resolve opts old evs)).
      \<exists>T fs req. Request fs req \<in> set evs
                 \<and> (T = old \<or> (\<exists>fs' cssFiles. Settled fs' (Inr cssFiles) \<in> set evs
                                 \<and> T = populate resolve fs' opts cssFiles))
                 \<and> out = dispatch route resolve fs opts T req"
    using run_observes_complete_tables by blast
  have 2: "run route resolve opts old
        (Change # map (\<lambda>(fs, req). Request fs req) during
           @ Settled fs' (Inr cssFiles) # map (\<lambda>(fs, req). Request fs req) after)
      = (populate resolve fs' opts cssFiles,
         map (\<lambda>(fs, req). dispatch route resolve fs opts old req) during
           @ map (\<lambda>(fs, req). dispatch route resolve fs opts (populate resolve fs' opts cssFiles) req) after)"
    by (simp add: run_Cons_Change run_append run_requests run_Cons_Settled buildCSSMapping_def del: run.simps(2))
  from 1 2 show ?thesis by blast
qed

theorem C9_witness:
  "run getRoute joinPath projOpts twoHeaders
     [Change, Request projFs xHeaderRequest, Settled projFs (Inr [''src/header/style.css'']),
      Request projFs xHeaderRequest]
   = (headerTable,
      [Local Exact ''/proj/src/footer/style.css'' cssHeaders ''p{}'',
       Local Partial ''/proj/src/header/style.css'' cssHeaders ''h1{}''])
   \<and> (\<exists>T fs req. (T = twoHeaders \<or> T = headerTable)
         \<and> Local Partial ''/proj/src/header/style.css'' cssHeaders ''h1{}''
           = dispatch getRoute joinPath fs projOpts T req)"
proof -
  let ?evs = "[Change, Request projFs xHeaderRequest, Settled projFs (Inr [''src/header/style.css'']),
      Request projFs xHeaderRequest]"
  note T = C9_lookups_see_whole_tables[where route = getRoute and resolve = joinPath
      and opts = projOpts and old = twoHeaders and evs = ?evs
      and during = "[(projFs, xHeaderRequest)]" and after = "[(projFs, xHeaderRequest)]"
      and fs' = projFs and cssFiles = "[''src/header/style.css'']"]
  from T have r: "run getRoute joinPath projOpts twoHeaders ?evs
   = (headerTable,
      [Local Exact ''/proj/src/footer/style.css'' cssHeaders ''p{}'',
       Local Partial ''/proj/src/header/style.css'' cssHeaders ''h1{}''])"
    by (simp add: populate_proj dispatch_old dispatch_new del: run.simps(2))
  then have "Local Partial ''/proj/src/header/style.css'' cssHeaders ''h1{}''
      \<in> set (snd (run getRoute joinPath projOpts twoHeaders ?evs))"
    by simp
  with T obtain T' fs req where
    q: "Request fs req \<in> set ?evs"
    and t: "T' = twoHeaders \<or> (\<exists>fs' cssFiles. Settled fs' (Inr cssFiles) \<in> set ?evs
                              \<and> T' = populate joinPath fs' projOpts cssFiles)"
    and o: "Local Partial ''/proj/src/header/style.css'' cssHeaders ''h1{}''
           = dispatch getRoute joinPath fs projOpts T' req"
    by blast
  from t have "T' = twoHeaders \<or> T' = headerTable"
    by (auto simp: populate_proj)
  with o have "\<exists>T fs req. (T = twoHeaders \<or> T = headerTable)
         \<and> Local Partial ''/proj/src/header/style.css'' cssHeaders ''h1{}''
           = dispatch getRoute joinPath fs projOpts T req"
    by (intro exI conjI)
  with r show ?thesis
    by (rule conjI)
qed

end
